theory Spec2Isabelle
  imports Main
begin

section \<open>Errors\<close>

text \<open>
  The exceptions the modelled part of \<^verbatim>\<open>client.py\<close> can raise. \<open>CommunicationError\<close> is
  raised by \<^verbatim>\<open>_request\<close> when the status code is not the expected one and
  \<open>ArchivesSpaceError\<close> by \<^verbatim>\<open>update_aspace_object\<close> on mismatching uris; the others are
  Python's own (a missing dictionary key, an index out of range, a call with an unexpected
  keyword or a join over a non-string) and lxml's parse error.
\<close>

datatype error =
    CommunicationError
  | ArchivesSpaceError
  | KeyError
  | IndexError
  | TypeError
  | XMLSyntaxError

section \<open>Records exchanged with the backend\<close>

text \<open>
  The JSON documents are Python dictionaries. The keys the modelled functions read are
  fields here; a key that a document may lack is an \<open>option\<close>, and subscripting an absent
  key is \<open>KeyError\<close>. Strings are lists of characters, each standing for one code point.
  Where a key or a name of the source is a reserved word here, the field is renamed: the
  keys \<^verbatim>\<open>expression\<close>, \<^verbatim>\<open>begin\<close> and \<^verbatim>\<open>end\<close> of a date are \<open>date_expression\<close>,
  \<open>date_begin\<close> and \<open>date_end\<close>; the key \<^verbatim>\<open>type\<close> of a note is \<open>note_type\<close>; the key
  \<^verbatim>\<open>notes\<close> of a record is \<open>json_notes\<close>; the key \<^verbatim>\<open>content\<close> of a subnote is
  \<open>subnote_content\<close>.
\<close>

record date =
  date_type :: string
  date_expression :: "string option"
  date_begin :: "string option"
  date_end :: "string option"

datatype subnote = Subnote (subnote_content: "string option")

record note_json =
  jsonmodel_type :: string
  note_type :: "string option"
  publish :: bool
  content :: "string list option"
  subnotes :: "subnote list option"

text \<open>
  An instance: \<open>instance_kind\<close> is \<^verbatim>\<open>instance["instance_type"]\<close>, \<open>digital_object\<close> is
  \<^verbatim>\<open>instance["digital_object"]["ref"]\<close> and \<open>sub_container\<close> is
  \<^verbatim>\<open>instance["sub_container"]["top_container"]["ref"]\<close>, each of the two absent when the
  instance has no such key.
\<close>

record instance_json =
  instance_kind :: string
  digital_object :: "string option"
  sub_container :: "string option"

text \<open>
  A node of the tree projection: the keys \<^verbatim>\<open>record_uri\<close>, \<^verbatim>\<open>has_children\<close>,
  \<^verbatim>\<open>instance_types\<close> and \<^verbatim>\<open>children\<close> that the walkers read.
\<close>

datatype tree_node =
  TreeNode (record_uri: string) (has_children: bool) (instance_types: "string list")
    (children: "tree_node list")

text \<open>
  One document of the backend. \<open>parent\<close> is \<^verbatim>\<open>json["parent"]["ref"]\<close>; \<open>archival_objects\<close> is
  the list of \<^verbatim>\<open>archival_object_uri\<close> values of a metadata-for-container response;
  \<open>tree_children\<close> is the \<^verbatim>\<open>children\<close> list of a resource tree; \<open>linked_instances\<close> and
  \<open>collection\<close> are the sharing lists of a digital object and of a top container.
\<close>

record aspace_json =
  uri :: "string option"
  title :: "string option"
  dates :: "date list option"
  parent :: "string option"
  display_string :: "string option"
  json_notes :: "note_json list option"
  instances :: "instance_json list option"
  linked_instances :: "string list option"
  collection :: "string list option"
  archival_objects :: "string list option"
  tree_children :: "tree_node list option"

record log_entry =
  log_uri :: string
  log_title :: string
  log_restriction :: string

datatype sweep_result = Message string | Log "log_entry list"

section \<open>Program state\<close>

text \<open>
  Modelled from the spec: the Record Fetcher of section 6, which is the remote backend
  and not code of the repository. A GET of a uri the backend does not hold answers with
  another status than 200; a POST overwrites the whole record; a DELETE removes it. Uris
  are the paths after \<^verbatim>\<open>backend_url\<close>. \<open>trace\<close> lists the requests that were sent.

  The state also holds the two list objects that Python binds once, at definition time, to
  the default arguments \<^verbatim>\<open>archival_object_uris=[]\<close> and \<^verbatim>\<open>children_with_instances=[]\<close>
  of the module-level walkers.
\<close>

datatype request = GET string | POST string aspace_json | DELETE string

record state =
  objects :: "string \<Rightarrow> aspace_json option"
  trace :: "request list"
  extract_default :: "string list"
  find_default :: "string list"

definition get_aspace_json :: "string \<Rightarrow> state \<Rightarrow> (error + aspace_json) \<times> state" where
  "get_aspace_json aspace_uri s =
     (case objects s aspace_uri of
        None \<Rightarrow> (Inl CommunicationError, s\<lparr>trace := trace s @ [GET aspace_uri]\<rparr>)
      | Some j \<Rightarrow> (Inr j, s\<lparr>trace := trace s @ [GET aspace_uri]\<rparr>))"

definition delete_aspace_object :: "string \<Rightarrow> state \<Rightarrow> (error + unit) \<times> state" where
  "delete_aspace_object aspace_uri s =
     (case objects s aspace_uri of
        None \<Rightarrow> (Inl CommunicationError, s\<lparr>trace := trace s @ [DELETE aspace_uri]\<rparr>)
      | Some j \<Rightarrow>
          (Inr (), s\<lparr>objects := (objects s)(aspace_uri := None),
                      trace := trace s @ [DELETE aspace_uri]\<rparr>))"

text \<open>
  \<^verbatim>\<open>self.session.post(self.backend_url + uri, json=...).json()\<close>, as the two restriction
  sweeps call it: the status code is not looked at.
\<close>

definition session_post :: "string \<Rightarrow> aspace_json \<Rightarrow> state \<Rightarrow> state" where
  "session_post aspace_uri json s =
     s\<lparr>objects := (objects s)(aspace_uri \<mapsto> json), trace := trace s @ [POST aspace_uri json]\<rparr>"

text \<open>
  \<^verbatim>\<open>post_aspace_json\<close> calls \<^verbatim>\<open>self._post(url, params=params, json=json)\<close>, and
  \<^verbatim>\<open>_post(self, url, params={}, data=None, expected_response=200)\<close> takes no keyword
  \<^verbatim>\<open>json\<close>: Python raises \<open>TypeError\<close> at the call, before any request is sent.
\<close>

definition post_aspace_json :: "string \<Rightarrow> aspace_json \<Rightarrow> state \<Rightarrow> (error + aspace_json) \<times> state" where
  "post_aspace_json aspace_uri json s = (Inl TypeError, s)"

definition update_aspace_object :: "string \<Rightarrow> aspace_json \<Rightarrow> state \<Rightarrow> (error + aspace_json) \<times> state" where
  "update_aspace_object aspace_uri aspace_json s =
     (case uri aspace_json of
        None \<Rightarrow> (Inl KeyError, s)
      | Some u \<Rightarrow>
          if aspace_uri = u then post_aspace_json aspace_uri aspace_json s
          else (Inl ArchivesSpaceError, s))"

definition get_resource_tree :: "string \<Rightarrow> string \<Rightarrow> state \<Rightarrow> (error + aspace_json) \<times> state" where
  "get_resource_tree repository resource_number s =
     get_aspace_json (repository @ ''/resources/'' @ resource_number @ ''/tree'') s"

definition get_metadata_for_container :: "string \<Rightarrow> string \<Rightarrow> state \<Rightarrow> (error + aspace_json) \<times> state" where
  "get_metadata_for_container repository top_container_id s =
     get_aspace_json (repository @ ''/metadata_for_container/'' @ top_container_id) s"

section \<open>Tree walker and uri extractor\<close>

text \<open>
  \<^verbatim>\<open>extract_archival_object_uris_from_children(children, archival_object_uris=[])\<close>:
  the body of the function, with the contents of the list object it appends to passed
  explicitly. Every recursive call of the source hands the same list object down, so
  appending in place is threading its contents through the calls.
\<close>

fun extract_archival_object_uris_from_children :: "tree_node list \<Rightarrow> string list \<Rightarrow> string list" where
  "extract_archival_object_uris_from_children [] archival_object_uris = archival_object_uris"
| "extract_archival_object_uris_from_children (TreeNode u hc its cs # rest) archival_object_uris =
     extract_archival_object_uris_from_children rest
       (if hc then extract_archival_object_uris_from_children cs (archival_object_uris @ [u])
        else archival_object_uris @ [u])"

text \<open>
  The \<^verbatim>\<open>instance_type\<close> argument of the tree walker is \<^verbatim>\<open>False\<close> by default or a
  string; Python's truth test takes the empty string for false as well.
\<close>

definition truthy_str :: "string option \<Rightarrow> bool" where
  "truthy_str v = (case v of None \<Rightarrow> False | Some t \<Rightarrow> t \<noteq> [])"

definition instance_type_in :: "string option \<Rightarrow> string list \<Rightarrow> bool" where
  "instance_type_in v its = (case v of None \<Rightarrow> False | Some t \<Rightarrow> t \<in> set its)"

fun find_children_with_instances :: "tree_node list \<Rightarrow> string list \<Rightarrow> string option \<Rightarrow> string list" where
  "find_children_with_instances [] children_with_instances instance_type = children_with_instances"
| "find_children_with_instances (TreeNode u hc its cs # rest) children_with_instances instance_type =
     find_children_with_instances rest
       (let acc =
          (if its \<noteq> [] then
             (if truthy_str instance_type \<and> instance_type_in instance_type its
                then children_with_instances @ [u]
              else if \<not> truthy_str instance_type then children_with_instances @ [u]
              else children_with_instances)
           else children_with_instances)
        in if hc then find_children_with_instances cs acc instance_type else acc)
       instance_type"

text \<open>
  A call that leaves the list argument out appends to the default list object and returns
  that same object: its contents after the call are both the result and the new contents
  of the default.
\<close>

definition call_extract_archival_object_uris_from_children :: "tree_node list \<Rightarrow> state \<Rightarrow> string list \<times> state" where
  "call_extract_archival_object_uris_from_children cs s =
     (let r = extract_archival_object_uris_from_children cs (extract_default s)
      in (r, s\<lparr>extract_default := r\<rparr>))"

definition call_find_children_with_instances :: "tree_node list \<Rightarrow> string option \<Rightarrow> state \<Rightarrow> string list \<times> state" where
  "call_find_children_with_instances cs instance_type s =
     (let r = find_children_with_instances cs (find_default s) instance_type
      in (r, s\<lparr>find_default := r\<rparr>))"

definition get_resource_archival_object_uris :: "string \<Rightarrow> string \<Rightarrow> state \<Rightarrow> (error + string list) \<times> state" where
  "get_resource_archival_object_uris repository resource_number s =
     (case get_resource_tree repository resource_number s of
        (Inl e, s1) \<Rightarrow> (Inl e, s1)
      | (Inr resource_tree, s1) \<Rightarrow>
          (case tree_children resource_tree of
             None \<Rightarrow> (Inl KeyError, s1)
           | Some cs \<Rightarrow>
               (case call_extract_archival_object_uris_from_children cs s1 of
                  (r, s2) \<Rightarrow> (Inr r, s2))))"

definition get_resource_children_with_instances :: "string \<Rightarrow> string \<Rightarrow> string option \<Rightarrow> state \<Rightarrow> (error + string list) \<times> state" where
  "get_resource_children_with_instances repository resource_number instance_type s =
     (case get_resource_tree repository resource_number s of
        (Inl e, s1) \<Rightarrow> (Inl e, s1)
      | (Inr resource_tree, s1) \<Rightarrow>
          (case tree_children resource_tree of
             None \<Rightarrow> (Inl KeyError, s1)
           | Some cs \<Rightarrow>
               (case call_find_children_with_instances cs instance_type s1 of
                  (r, s2) \<Rightarrow> (Inr r, s2))))"

section \<open>Formatters\<close>

text \<open>
  \<^verbatim>\<open>str.strip()\<close> removes the characters for which \<^verbatim>\<open>str.isspace\<close> holds from both
  ends; among the code points below 256 these are 9 to 13, 28 to 32, 133 and 160.
\<close>

definition isspace :: "char \<Rightarrow> bool" where
  "isspace c =
     (let n = (of_char c :: nat)
      in (9 \<le> n \<and> n \<le> 13) \<or> (28 \<le> n \<and> n \<le> 32) \<or> n = 133 \<or> n = 160)"

definition strip :: "string \<Rightarrow> string" where
  "strip t = rev (dropWhile isspace (rev (dropWhile isspace t)))"

text \<open>
  \<^verbatim>\<open>re.sub(r"<.*?>", "", title)\<close>: a match starts at a \<^verbatim>\<open><\<close> and runs to the first
  \<^verbatim>\<open>>\<close> after it, provided no newline stands between them (the dot matches no newline);
  \<open>tag_end\<close> returns what follows that \<^verbatim>\<open>>\<close>. Where no match starts, the character is kept.
\<close>

fun tag_end :: "string \<Rightarrow> string option" where
  "tag_end [] = None"
| "tag_end (c # cs) =
     (if c = CHR ''>'' then Some cs else if c = CHR 0x0A then None else tag_end cs)"

function strip_tags :: "string \<Rightarrow> string" where
  "strip_tags [] = []"
| "strip_tags (c # cs) =
     (if c = CHR ''<'' then
        (case tag_end cs of Some rest \<Rightarrow> strip_tags rest | None \<Rightarrow> c # strip_tags cs)
      else c # strip_tags cs)"
  by pat_completeness auto

lemma tag_end_shorter: "tag_end cs = Some rest \<Longrightarrow> length rest < Suc (length cs)"
  by (induction cs) (auto split: if_splits)

termination strip_tags
  by (relation "measure length") (auto dest: tag_end_shorter)

definition sanitize_title :: "string \<Rightarrow> string" where
  "sanitize_title t = strip (strip_tags t)"

text \<open>\<^verbatim>\<open>sep.join(items)\<close> for a list of strings.\<close>

fun join :: "string \<Rightarrow> string list \<Rightarrow> string" where
  "join sep [] = []"
| "join sep [x] = x"
| "join sep (x # y # ys) = x @ sep @ join sep (y # ys)"

text \<open>
  The body of the loop of \<^verbatim>\<open>format_dates\<close> up to the two appends: the expression of one
  date entry. \<^verbatim>\<open>date.get(key, "")\<close> gives the empty string for an absent key, and the
  truth test of a string is that it is not empty.
\<close>

definition date_text :: "date \<Rightarrow> string" where
  "date_text d =
     (let expression = (case date_expression d of None \<Rightarrow> [] | Some e \<Rightarrow> e)
      in if expression = [] then
           (let begin_str = (case date_begin d of None \<Rightarrow> [] | Some b \<Rightarrow> b);
                end_str = (case date_end d of None \<Rightarrow> [] | Some e \<Rightarrow> e)
            in if begin_str \<noteq> [] \<and> end_str \<noteq> [] then begin_str @ ''-'' @ end_str
               else if begin_str \<noteq> [] then begin_str
               else expression)
         else expression)"

fun format_dates_loop :: "date list \<Rightarrow> string list \<Rightarrow> string list \<Rightarrow> string list \<times> string list" where
  "format_dates_loop [] inclusive_dates bulk_dates = (inclusive_dates, bulk_dates)"
| "format_dates_loop (d # ds) inclusive_dates bulk_dates =
     format_dates_loop ds
       (if date_type d = ''inclusive'' then inclusive_dates @ [strip (date_text d)]
        else inclusive_dates)
       (if date_type d = ''bulk'' then bulk_dates @ [strip (date_text d)] else bulk_dates)"

definition truthy_list :: "'a list option \<Rightarrow> bool" where
  "truthy_list v = (case v of None \<Rightarrow> False | Some xs \<Rightarrow> xs \<noteq> [])"

definition format_dates :: "aspace_json \<Rightarrow> string" where
  "format_dates aspace_json =
     (if truthy_list (dates aspace_json) then
        (case format_dates_loop (the (dates aspace_json)) [] [] of
           (inclusive_dates, bulk_dates) \<Rightarrow>
             join '', '' inclusive_dates @
             (case bulk_dates of [] \<Rightarrow> [] | b # _ \<Rightarrow> '' (bulk '' @ b @ '')''))
      else [])"

text \<open>
  \<^verbatim>\<open>make_display_string\<close> returns Python's \<^verbatim>\<open>None\<close> (here \<open>None\<close>) when no branch
  applies, that is when the record has neither a title nor dates.
\<close>

definition make_display_string :: "aspace_json \<Rightarrow> bool \<Rightarrow> state \<Rightarrow> (error + string option) \<times> state" where
  "make_display_string aspace_json add_parent_title s =
     (if truthy_str (title aspace_json) \<and> truthy_list (dates aspace_json) then
        (Inr (Some (sanitize_title (the (title aspace_json)) @ '', '' @ format_dates aspace_json)), s)
      else if truthy_str (title aspace_json) \<and> \<not> truthy_list (dates aspace_json) then
        (Inr (Some (sanitize_title (the (title aspace_json)))), s)
      else if truthy_list (dates aspace_json) \<and> \<not> truthy_str (title aspace_json) then
        (if add_parent_title then
           (case parent aspace_json of
              None \<Rightarrow> (Inl KeyError, s)
            | Some parent_ref \<Rightarrow>
                (case get_aspace_json parent_ref s of
                   (Inl e, s1) \<Rightarrow> (Inl e, s1)
                 | (Inr parent_json, s1) \<Rightarrow>
                     (case display_string parent_json of
                        None \<Rightarrow> (Inl KeyError, s1)
                      | Some d \<Rightarrow>
                          (Inr (Some (sanitize_title d @ '', '' @ format_dates aspace_json)), s1))))
         else (Inr (Some (format_dates aspace_json)), s))
      else (Inr None, s))"

text \<open>
  The \<^verbatim>\<open>while aspace_json.get("parent")\<close> loop of \<^verbatim>\<open>build_hierarchy\<close>. Nothing in the
  source bounds the number of iterations, so the loop is a partial function: \<open>None\<close>
  stands for a run that never leaves the loop.
\<close>

partial_function (option) build_hierarchy_loop :: "aspace_json \<Rightarrow> string option list \<Rightarrow> state \<Rightarrow> ((error + string option list) \<times> state) option" where
  "build_hierarchy_loop aspace_json parent_titles s =
     (case parent aspace_json of
        None \<Rightarrow> Some (Inr parent_titles, s)
      | Some parent_ref \<Rightarrow>
          (case get_aspace_json parent_ref s of
             (Inl e, s1) \<Rightarrow> Some (Inl e, s1)
           | (Inr parent_json, s1) \<Rightarrow>
               (case make_display_string parent_json False s1 of
                  (Inl e, s2) \<Rightarrow> Some (Inl e, s2)
                | (Inr parent_title, s2) \<Rightarrow>
                    build_hierarchy_loop parent_json (parent_titles @ [parent_title]) s2)))"

text \<open>
  \<^verbatim>\<open>" {} ".format(delimiter).join(parent_titles)\<close> raises \<open>TypeError\<close> when an item is
  \<^verbatim>\<open>None\<close>; \<open>all_strings\<close> gives the items when every one is a string.
\<close>

fun all_strings :: "string option list \<Rightarrow> string list option" where
  "all_strings [] = Some []"
| "all_strings (None # ts) = None"
| "all_strings (Some t # ts) = (case all_strings ts of None \<Rightarrow> None | Some r \<Rightarrow> Some (t # r))"

definition build_hierarchy :: "aspace_json \<Rightarrow> string \<Rightarrow> state \<Rightarrow> ((error + string) \<times> state) option" where
  "build_hierarchy aspace_json delimiter s =
     (case build_hierarchy_loop aspace_json [] s of
        None \<Rightarrow> None
      | Some (Inl e, s1) \<Rightarrow> Some (Inl e, s1)
      | Some (Inr parent_titles, s1) \<Rightarrow>
          (if rev parent_titles \<noteq> [] then
             (case all_strings (rev parent_titles) of
                None \<Rightarrow> Some (Inl TypeError, s1)
              | Some ts \<Rightarrow> Some (Inr (join ('' '' @ delimiter @ '' '') ts), s1))
           else Some (Inr [], s1)))"

definition format_note :: "note_json \<Rightarrow> error + string" where
  "format_note n =
     (if jsonmodel_type n = ''note_singlepart'' then
        (case content n of
           None \<Rightarrow> Inl KeyError
         | Some [] \<Rightarrow> Inl IndexError
         | Some (c # _) \<Rightarrow> Inr c)
      else
        (case subnotes n of
           None \<Rightarrow> Inl KeyError
         | Some [] \<Rightarrow> Inl IndexError
         | Some (sn # _) \<Rightarrow>
             (case subnote_content sn of None \<Rightarrow> Inl KeyError | Some c \<Rightarrow> Inr c)))"

text \<open>
  Python's \<^verbatim>\<open><\<close> on strings: lexicographic by code point, a proper prefix being smaller.
\<close>

fun str_less :: "string \<Rightarrow> string \<Rightarrow> bool" where
  "str_less [] [] = False"
| "str_less [] (y # ys) = True"
| "str_less (x # xs) [] = False"
| "str_less (x # xs) (y # ys) =
     (if (of_char x :: nat) < of_char y then True
      else if (of_char y :: nat) < of_char x then False
      else str_less xs ys)"

section \<open>Restriction sweeps\<close>

text \<open>
  One iteration of \<^verbatim>\<open>for note in archival_object["notes"]\<close> in
  \<^verbatim>\<open>unpublish_expired_restrictions_for_resource\<close>: the note as the iteration leaves it and
  the log entry it appends, if any. The lxml calls are a parameter: \<open>xml_dates text\<close> is the
  outcome of parsing \<^verbatim>\<open><accessrestrict>text</accessrestrict>\<close> and selecting
  \<^verbatim>\<open>./date\<close>, namely a parse error or, for each selected element in document order, its
  \<^verbatim>\<open>normal\<close> attribute if it has one. \<open>today\<close> is the formatted current date.
\<close>

definition expired_note_step :: "string \<Rightarrow> (string \<Rightarrow> error + string option list) \<Rightarrow> string \<Rightarrow> aspace_json \<Rightarrow> note_json \<Rightarrow> error + (note_json \<times> log_entry option)" where
  "expired_note_step today xml_dates archival_object_uri archival_object n =
     (case note_type n of
        None \<Rightarrow> Inl KeyError
      | Some t \<Rightarrow>
          if t = ''accessrestrict'' \<and> publish n then
            (case format_note n of
               Inl e \<Rightarrow> Inl e
             | Inr accessrestrict \<Rightarrow>
                 (case xml_dates accessrestrict of
                    Inl e \<Rightarrow> Inl e
                  | Inr [] \<Rightarrow> Inr (n, None)
                  | Inr (None # _) \<Rightarrow> Inl KeyError
                  | Inr (Some normal # _) \<Rightarrow>
                      if str_less normal today then
                        (case display_string archival_object of
                           None \<Rightarrow> Inl KeyError
                         | Some d \<Rightarrow>
                             Inr (n\<lparr>publish := False\<rparr>,
                                  Some \<lparr>log_uri = archival_object_uri, log_title = d,
                                        log_restriction = accessrestrict\<rparr>))
                      else Inr (n, None)))
          else Inr (n, None))"

text \<open>The same iteration in \<^verbatim>\<open>unpublish_restrictions_by_text\<close>.\<close>

definition text_note_step :: "string \<Rightarrow> string \<Rightarrow> aspace_json \<Rightarrow> note_json \<Rightarrow> error + (note_json \<times> log_entry option)" where
  "text_note_step restriction_text archival_object_uri archival_object n =
     (case note_type n of
        None \<Rightarrow> Inl KeyError
      | Some t \<Rightarrow>
          if t = ''accessrestrict'' \<and> publish n then
            (case format_note n of
               Inl e \<Rightarrow> Inl e
             | Inr accessrestrict \<Rightarrow>
                 if accessrestrict = restriction_text then
                   (case display_string archival_object of
                      None \<Rightarrow> Inl KeyError
                    | Some d \<Rightarrow>
                        Inr (n\<lparr>publish := False\<rparr>,
                             Some \<lparr>log_uri = archival_object_uri, log_title = d,
                                   log_restriction = accessrestrict\<rparr>))
                 else Inr (n, None))
          else Inr (n, None))"

text \<open>
  The loop over the notes of one record, for either sweep (\<open>step\<close> is the iteration): the
  notes as the loop leaves them, \<^verbatim>\<open>update_archival_object\<close> and \<^verbatim>\<open>unpublished_log\<close>. An
  exception leaves the loop with the record and the log, both local, dropped.
\<close>

fun notes_loop :: "(note_json \<Rightarrow> error + (note_json \<times> log_entry option)) \<Rightarrow> note_json list \<Rightarrow> bool \<Rightarrow> log_entry list \<Rightarrow> error + (note_json list \<times> bool \<times> log_entry list)" where
  "notes_loop step [] update_archival_object unpublished_log =
     Inr ([], update_archival_object, unpublished_log)"
| "notes_loop step (n # ns) update_archival_object unpublished_log =
     (case step n of
        Inl e \<Rightarrow> Inl e
      | Inr (n', None) \<Rightarrow>
          (case notes_loop step ns update_archival_object unpublished_log of
             Inl e \<Rightarrow> Inl e
           | Inr (ns', u, l) \<Rightarrow> Inr (n' # ns', u, l))
      | Inr (n', Some entry) \<Rightarrow>
          (case notes_loop step ns True (unpublished_log @ [entry]) of
             Inl e \<Rightarrow> Inl e
           | Inr (ns', u, l) \<Rightarrow> Inr (n' # ns', u, l)))"

text \<open>
  The loop \<^verbatim>\<open>for archival_object_uri in archival_object_uris\<close> of either sweep; \<open>step\<close>
  takes the uri and the fetched record.
\<close>

fun sweep_loop :: "(string \<Rightarrow> aspace_json \<Rightarrow> note_json \<Rightarrow> error + (note_json \<times> log_entry option)) \<Rightarrow> string list \<Rightarrow> log_entry list \<Rightarrow> state \<Rightarrow> (error + log_entry list) \<times> state" where
  "sweep_loop step [] unpublished_log s = (Inr unpublished_log, s)"
| "sweep_loop step (archival_object_uri # rest) unpublished_log s =
     (case get_aspace_json archival_object_uri s of
        (Inl e, s1) \<Rightarrow> (Inl e, s1)
      | (Inr archival_object, s1) \<Rightarrow>
          (case json_notes archival_object of
             None \<Rightarrow> (Inl KeyError, s1)
           | Some ns \<Rightarrow>
               (case notes_loop (step archival_object_uri archival_object) ns False unpublished_log of
                  Inl e \<Rightarrow> (Inl e, s1)
                | Inr (ns', update_archival_object, l) \<Rightarrow>
                    sweep_loop step rest l
                      (if update_archival_object
                       then session_post archival_object_uri (archival_object\<lparr>json_notes := Some ns'\<rparr>) s1
                       else s1))))"

definition unpublish_expired_restrictions_for_resource :: "string \<Rightarrow> string \<Rightarrow> (string \<Rightarrow> error + string option list) \<Rightarrow> string \<Rightarrow> state \<Rightarrow> (error + log_entry list) \<times> state" where
  "unpublish_expired_restrictions_for_resource repository today xml_dates resource_number s =
     (case get_resource_archival_object_uris repository resource_number s of
        (Inl e, s1) \<Rightarrow> (Inl e, s1)
      | (Inr archival_object_uris, s1) \<Rightarrow>
          sweep_loop (expired_note_step today xml_dates) archival_object_uris [] s1)"

text \<open>
  \<^verbatim>\<open>restriction_text\<close> is \<^verbatim>\<open>False\<close> by default (here \<open>None\<close>) or a string.
\<close>

definition unpublish_restrictions_by_text :: "string \<Rightarrow> string \<Rightarrow> string option \<Rightarrow> state \<Rightarrow> (error + sweep_result) \<times> state" where
  "unpublish_restrictions_by_text repository resource_number restriction_text s =
     (if \<not> truthy_str restriction_text then (Inr (Message ''No restriction text provided''), s)
      else
        (case get_resource_archival_object_uris repository resource_number s of
           (Inl e, s1) \<Rightarrow> (Inl e, s1)
         | (Inr archival_object_uris, s1) \<Rightarrow>
             (case sweep_loop (text_note_step (the restriction_text)) archival_object_uris [] s1 of
                (Inl e, s2) \<Rightarrow> (Inl e, s2)
              | (Inr l, s2) \<Rightarrow> (Inr (Log l), s2))))"

section \<open>Container merge\<close>

text \<open>
  The list comprehension over \<^verbatim>\<open>instances\<close> followed by the loop that repoints the
  matching ones. The comprehension subscripts \<^verbatim>\<open>instance["sub_container"]\<close> on every
  instance, so one instance without that key raises \<open>KeyError\<close> before any is changed.
\<close>

fun repoint_instances :: "string \<Rightarrow> string \<Rightarrow> instance_json list \<Rightarrow> error + instance_json list" where
  "repoint_instances source_uri target_uri [] = Inr []"
| "repoint_instances source_uri target_uri (i # rest) =
     (case sub_container i of
        None \<Rightarrow> Inl KeyError
      | Some r \<Rightarrow>
          (case repoint_instances source_uri target_uri rest of
             Inl e \<Rightarrow> Inl e
           | Inr rest' \<Rightarrow>
               Inr ((if r = source_uri then i\<lparr>sub_container := Some target_uri\<rparr> else i) # rest')))"

fun merge_loop :: "string \<Rightarrow> string \<Rightarrow> string list \<Rightarrow> state \<Rightarrow> (error + unit) \<times> state" where
  "merge_loop source_uri target_uri [] s = (Inr (), s)"
| "merge_loop source_uri target_uri (archival_object_uri # rest) s =
     (case get_aspace_json archival_object_uri s of
        (Inl e, s1) \<Rightarrow> (Inl e, s1)
      | (Inr archival_object, s1) \<Rightarrow>
          (case instances archival_object of
             None \<Rightarrow> (Inl KeyError, s1)
           | Some insts \<Rightarrow>
               (case repoint_instances source_uri target_uri insts of
                  Inl e \<Rightarrow> (Inl e, s1)
                | Inr insts' \<Rightarrow>
                    (case update_aspace_object archival_object_uri
                            (archival_object\<lparr>instances := Some insts'\<rparr>) s1 of
                       (Inl e, s2) \<Rightarrow> (Inl e, s2)
                     | (Inr _, s2) \<Rightarrow> merge_loop source_uri target_uri rest s2))))"

definition merge_top_containers :: "string \<Rightarrow> string \<Rightarrow> string \<Rightarrow> state \<Rightarrow> (error + unit) \<times> state" where
  "merge_top_containers repository source_id target_id s =
     (case get_metadata_for_container repository source_id s of
        (Inl e, s1) \<Rightarrow> (Inl e, s1)
      | (Inr metadata, s1) \<Rightarrow>
          (case archival_objects metadata of
             None \<Rightarrow> (Inl KeyError, s1)
           | Some archival_object_uris \<Rightarrow>
               (case merge_loop (repository @ ''/top_containers/'' @ source_id)
                       (repository @ ''/top_containers/'' @ target_id) archival_object_uris s1 of
                  (Inl e, s2) \<Rightarrow> (Inl e, s2)
                | (Inr _, s2) \<Rightarrow>
                    delete_aspace_object (repository @ ''/top_containers/'' @ source_id) s2)))"

section \<open>Orphan association cleanup\<close>

text \<open>Python's substring test \<^verbatim>\<open>sub in t\<close>.\<close>

fun contains :: "string \<Rightarrow> string \<Rightarrow> bool" where
  "contains sub [] = (sub = [])"
| "contains sub (c # cs) = (take (length sub) (c # cs) = sub \<or> contains sub cs)"

text \<open>The loop of \<^verbatim>\<open>find_instance_uris\<close> that appends one reference per instance.\<close>

fun instance_refs :: "instance_json list \<Rightarrow> error + string list" where
  "instance_refs [] = Inr []"
| "instance_refs (i # rest) =
     (case (if instance_kind i = ''digital_object'' then digital_object i else sub_container i) of
        None \<Rightarrow> Inl KeyError
      | Some r \<Rightarrow>
          (case instance_refs rest of Inl e \<Rightarrow> Inl e | Inr rs \<Rightarrow> Inr (r # rs)))"

definition find_instance_uris :: "string \<Rightarrow> string option \<Rightarrow> state \<Rightarrow> (error + string list) \<times> state" where
  "find_instance_uris aspace_uri instance_type s =
     (case get_aspace_json aspace_uri s of
        (Inl e, s1) \<Rightarrow> (Inl e, s1)
      | (Inr aspace_json, s1) \<Rightarrow>
          (case instances aspace_json of
             None \<Rightarrow> (Inl KeyError, s1)
           | Some insts \<Rightarrow>
               (case instance_refs
                       (if truthy_str instance_type
                        then filter (\<lambda>i. Some (instance_kind i) = instance_type) insts
                        else insts) of
                  Inl e \<Rightarrow> (Inl e, s1)
                | Inr rs \<Rightarrow> (Inr rs, s1))))"

definition delete_single_resource_instances :: "string \<Rightarrow> state \<Rightarrow> (error + unit) \<times> state" where
  "delete_single_resource_instances instance_uri s =
     (if contains ''digital_objects'' instance_uri then
        (case get_aspace_json instance_uri s of
           (Inl e, s1) \<Rightarrow> (Inl e, s1)
         | (Inr digital_object_json, s1) \<Rightarrow>
             (case linked_instances digital_object_json of
                None \<Rightarrow> (Inl KeyError, s1)
              | Some li \<Rightarrow>
                  if length li = 1 then delete_aspace_object instance_uri s1 else (Inr (), s1)))
      else if contains ''top_containers'' instance_uri then
        (case get_aspace_json instance_uri s of
           (Inl e, s1) \<Rightarrow> (Inl e, s1)
         | (Inr top_container, s1) \<Rightarrow>
             (case collection top_container of
                None \<Rightarrow> (Inl KeyError, s1)
              | Some co \<Rightarrow>
                  if length co = 1 then delete_aspace_object instance_uri s1 else (Inr (), s1)))
      else (Inr (), s))"

text \<open>The two loops of \<^verbatim>\<open>remove_resource_associations\<close>.\<close>

fun collect_instance_uris :: "string list \<Rightarrow> string list \<Rightarrow> state \<Rightarrow> (error + string list) \<times> state" where
  "collect_instance_uris [] instance_uris s = (Inr instance_uris, s)"
| "collect_instance_uris (child_uri # rest) instance_uris s =
     (case find_instance_uris child_uri None s of
        (Inl e, s1) \<Rightarrow> (Inl e, s1)
      | (Inr rs, s1) \<Rightarrow> collect_instance_uris rest (instance_uris @ rs) s1)"

fun delete_instances_loop :: "string list \<Rightarrow> state \<Rightarrow> (error + unit) \<times> state" where
  "delete_instances_loop [] s = (Inr (), s)"
| "delete_instances_loop (instance_uri # rest) s =
     (case delete_single_resource_instances instance_uri s of
        (Inl e, s1) \<Rightarrow> (Inl e, s1)
      | (Inr _, s1) \<Rightarrow> delete_instances_loop rest s1)"

text \<open>
  \<^verbatim>\<open>for instance_uri in set(instance_uris)\<close>: Python leaves the iteration order of a set
  open, so the order is a parameter, \<open>set_order\<close>, which lists the elements of the set built
  from its argument, each once.
\<close>

definition remove_resource_associations :: "(string list \<Rightarrow> string list) \<Rightarrow> string \<Rightarrow> string \<Rightarrow> state \<Rightarrow> (error + unit) \<times> state" where
  "remove_resource_associations set_order repository resource_number s =
     (case get_resource_tree repository resource_number s of
        (Inl e, s1) \<Rightarrow> (Inl e, s1)
      | (Inr resource_tree, s1) \<Rightarrow>
          (case tree_children resource_tree of
             None \<Rightarrow> (Inl KeyError, s1)
           | Some cs \<Rightarrow>
               (case call_find_children_with_instances cs None s1 of
                  (children_with_instances, s2) \<Rightarrow>
                    (case collect_instance_uris children_with_instances [] s2 of
                       (Inl e, s3) \<Rightarrow> (Inl e, s3)
                     | (Inr instance_uris, s3) \<Rightarrow>
                         delete_instances_loop (set_order instance_uris) s3))))"

section \<open>Reference descriptions used in the statements\<close>

text \<open>The uris of all descendants of a children list, in pre-order.\<close>

fun flatten_uris :: "tree_node list \<Rightarrow> string list" where
  "flatten_uris [] = []"
| "flatten_uris (TreeNode u hc its cs # rest) =
     u # (if hc then flatten_uris cs else []) @ flatten_uris rest"

text \<open>
  The effective expression of a date entry and the output of the date formatter as the
  specification words them (section 4.5): only the non-empty inclusive expressions are
  joined.
\<close>

definition spec_effective_expression :: "date \<Rightarrow> string" where
  "spec_effective_expression d =
     (if truthy_str (date_expression d) then the (date_expression d)
      else if truthy_str (date_begin d) \<and> truthy_str (date_end d)
        then the (date_begin d) @ ''-'' @ the (date_end d)
      else if truthy_str (date_begin d) then the (date_begin d)
      else [])"

definition spec_format_dates :: "aspace_json \<Rightarrow> string" where
  "spec_format_dates aspace_json =
     (let ds = (case dates aspace_json of None \<Rightarrow> [] | Some ds \<Rightarrow> ds);
          inclusive = filter (\<lambda>t. t \<noteq> [])
            (map (\<lambda>d. strip (spec_effective_expression d))
               (filter (\<lambda>d. date_type d = ''inclusive'') ds));
          bulk = map (\<lambda>d. strip (spec_effective_expression d))
               (filter (\<lambda>d. date_type d = ''bulk'') ds)
      in join '', '' inclusive @ (case bulk of [] \<Rightarrow> [] | b # _ \<Rightarrow> '' (bulk '' @ b @ '')''))"

text \<open>Concrete inputs: a document without any key and a fresh process.\<close>

definition empty_json :: aspace_json where
  "empty_json = \<lparr>uri = None, title = None, dates = None, parent = None, display_string = None,
     json_notes = None, instances = None, linked_instances = None, collection = None,
     archival_objects = None, tree_children = None\<rparr>"

definition initial_state :: "(string \<Rightarrow> aspace_json option) \<Rightarrow> state" where
  "initial_state objs = \<lparr>objects = objs, trace = [], extract_default = [], find_default = []\<rparr>"

text \<open>
  What the restriction sweeps are meant to do, for a selection \<open>P\<close> of notes: a selected
  note is unpublished, a record has its selected notes unpublished, and the store after a
  sweep over the uris \<open>us\<close> has every visited record so changed. \<open>entry_for\<close> is the log
  entry of a note, \<open>sweep_log\<close> the entries of the selected notes of the visited records and
  \<open>sweep_posts\<close> the write-backs, one per visited record with a selected note, both in the
  order in which the uris are first visited.
\<close>

definition unpublish_if :: "(note_json \<Rightarrow> bool) \<Rightarrow> note_json \<Rightarrow> note_json" where
  "unpublish_if P n = (if P n then n\<lparr>publish := False\<rparr> else n)"

definition notes_of :: "aspace_json \<Rightarrow> note_json list" where
  "notes_of ao = (case json_notes ao of None \<Rightarrow> [] | Some ns \<Rightarrow> ns)"

definition unpublish_where :: "(note_json \<Rightarrow> bool) \<Rightarrow> aspace_json \<Rightarrow> aspace_json" where
  "unpublish_where P ao =
     (case json_notes ao of
        None \<Rightarrow> ao
      | Some ns \<Rightarrow> ao\<lparr>json_notes := Some (map (unpublish_if P) ns)\<rparr>)"

definition store_after :: "(note_json \<Rightarrow> bool) \<Rightarrow> string list \<Rightarrow> (string \<Rightarrow> aspace_json option) \<Rightarrow> string \<Rightarrow> aspace_json option" where
  "store_after P us objs u = (if u \<in> set us then map_option (unpublish_where P) (objs u) else objs u)"

definition entry_for :: "string \<Rightarrow> aspace_json \<Rightarrow> note_json \<Rightarrow> log_entry" where
  "entry_for u ao n =
     \<lparr>log_uri = u,
      log_title = (case display_string ao of None \<Rightarrow> [] | Some d \<Rightarrow> d),
      log_restriction = (case format_note n of Inl e \<Rightarrow> [] | Inr t \<Rightarrow> t)\<rparr>"

fun first_occurrences :: "'a list \<Rightarrow> 'a list" where
  "first_occurrences [] = []"
| "first_occurrences (x # xs) = x # filter (\<lambda>y. y \<noteq> x) (first_occurrences xs)"

definition entries_at :: "(note_json \<Rightarrow> bool) \<Rightarrow> (string \<Rightarrow> aspace_json option) \<Rightarrow> string \<Rightarrow> log_entry list" where
  "entries_at P objs u =
     (case objs u of None \<Rightarrow> [] | Some ao \<Rightarrow> map (entry_for u ao) (filter P (notes_of ao)))"

definition sweep_log :: "(note_json \<Rightarrow> bool) \<Rightarrow> (string \<Rightarrow> aspace_json option) \<Rightarrow> string list \<Rightarrow> log_entry list" where
  "sweep_log P objs us = concat (map (entries_at P objs) (first_occurrences us))"

definition posts_at :: "(note_json \<Rightarrow> bool) \<Rightarrow> (string \<Rightarrow> aspace_json option) \<Rightarrow> string \<Rightarrow> request list" where
  "posts_at P objs u =
     (case objs u of
        None \<Rightarrow> []
      | Some ao \<Rightarrow> if filter P (notes_of ao) \<noteq> [] then [POST u (unpublish_where P ao)] else [])"

definition sweep_posts :: "(note_json \<Rightarrow> bool) \<Rightarrow> (string \<Rightarrow> aspace_json option) \<Rightarrow> string list \<Rightarrow> request list" where
  "sweep_posts P objs us = concat (map (posts_at P objs) (first_occurrences us))"

fun is_post :: "request \<Rightarrow> bool" where
  "is_post (POST u j) = True"
| "is_post (GET u) = False"
| "is_post (DELETE u) = False"

definition step_spec :: "(string \<Rightarrow> aspace_json \<Rightarrow> note_json \<Rightarrow> error + (note_json \<times> log_entry option)) \<Rightarrow> (note_json \<Rightarrow> bool) \<Rightarrow> bool" where
  "step_spec step P =
     (\<forall>u ao n n' e. step u ao n = Inr (n', e) \<longrightarrow>
        n' = unpublish_if P n \<and> e = (if P n then Some (entry_for u ao n) else None))"

definition selects_published :: "(note_json \<Rightarrow> bool) \<Rightarrow> bool" where
  "selects_published P = (\<forall>n. P n \<longrightarrow> publish n)"

text \<open>
  The selections of the two sweeps: a published access restriction whose first date element
  has a \<open>normal\<close> attribute that is smaller than today, and a published access restriction
  whose formatted text is the given one.
\<close>

definition expired :: "string \<Rightarrow> (string \<Rightarrow> error + string option list) \<Rightarrow> note_json \<Rightarrow> bool" where
  "expired today xml_dates n =
     (note_type n = Some ''accessrestrict'' \<and> publish n \<and>
      (case format_note n of
         Inl e \<Rightarrow> False
       | Inr t \<Rightarrow>
           (case xml_dates t of
              Inl e \<Rightarrow> False
            | Inr [] \<Rightarrow> False
            | Inr (None # _) \<Rightarrow> False
            | Inr (Some normal # _) \<Rightarrow> str_less normal today)))"

definition text_matches :: "string \<Rightarrow> note_json \<Rightarrow> bool" where
  "text_matches restriction_text n =
     (note_type n = Some ''accessrestrict'' \<and> publish n \<and> format_note n = Inr restriction_text)"

definition tree_uri :: "string \<Rightarrow> string \<Rightarrow> string" where
  "tree_uri repository resource_number = repository @ ''/resources/'' @ resource_number @ ''/tree''"

text \<open>
  How a sweep may change the store: every record is still there, and differs from what it
  was at most in that selected notes have become unpublished.
\<close>

definition note_change :: "(note_json \<Rightarrow> bool) \<Rightarrow> note_json \<Rightarrow> note_json \<Rightarrow> bool" where
  "note_change P n n' = (n' = n \<or> (P n \<and> n' = n\<lparr>publish := False\<rparr>))"

definition record_change :: "(note_json \<Rightarrow> bool) \<Rightarrow> aspace_json \<Rightarrow> aspace_json \<Rightarrow> bool" where
  "record_change P ao ao' =
     (ao' = ao\<lparr>json_notes := json_notes ao'\<rparr> \<and> list_all2 (note_change P) (notes_of ao) (notes_of ao'))"

definition store_change :: "(note_json \<Rightarrow> bool) \<Rightarrow> (string \<Rightarrow> aspace_json option) \<Rightarrow> (string \<Rightarrow> aspace_json option) \<Rightarrow> bool" where
  "store_change P objs objs' =
     (\<forall>u. case objs u of
            None \<Rightarrow> objs' u = None
          | Some ao \<Rightarrow> (case objs' u of None \<Rightarrow> False | Some ao' \<Rightarrow> record_change P ao ao'))"

text \<open>
  A concrete backend for the text-match sweep: a resource whose tree has two archival
  objects, each with one published access restriction, of text \<open>old\<close> and \<open>new\<close>.
\<close>

definition old_note :: note_json where
  "old_note = \<lparr>jsonmodel_type = ''note_multipart'', note_type = Some ''accessrestrict'',
     publish = True, content = None, subnotes = Some [Subnote (Some ''old'')]\<rparr>"

definition new_note :: note_json where
  "new_note = \<lparr>jsonmodel_type = ''note_multipart'', note_type = Some ''accessrestrict'',
     publish = True, content = None, subnotes = Some [Subnote (Some ''new'')]\<rparr>"

definition example_objects :: "string \<Rightarrow> aspace_json option" where
  "example_objects =
     [''/r/resources/1/tree'' \<mapsto>
        empty_json\<lparr>tree_children := Some [TreeNode ''/ao/1'' False [] [], TreeNode ''/ao/2'' False [] []]\<rparr>,
      ''/ao/1'' \<mapsto> empty_json\<lparr>uri := Some ''/ao/1'', display_string := Some ''Box 1'',
                               json_notes := Some [old_note]\<rparr>,
      ''/ao/2'' \<mapsto> empty_json\<lparr>uri := Some ''/ao/2'', display_string := Some ''Box 2'',
                               json_notes := Some [new_note]\<rparr>]"

text \<open>
  A concrete backend for the expiry sweep, run on 2026-11-04: a resource whose tree has
  three archival objects, each with one published access restriction whose text holds a
  date element, dated in the past, in the future and today.

  \<open>example_xml_dates\<close> is what \<^verbatim>\<open>etree.fromstring\<close> and \<^verbatim>\<open>xpath("./date")\<close> give on
  these three texts wrapped in \<^verbatim>\<open><accessrestrict>\<close>: one date element, with the
  \<open>normal\<close> attribute written in the text. A text without markup has no date element; no
  other text occurs in the examples.
\<close>

definition past_text :: string where
  \<open>past_text = ''Closed until <date normal="2020-01-01">2020</date>''\<close>

definition future_text :: string where
  \<open>future_text = ''Closed until <date normal="2030-01-01">2030</date>''\<close>

definition today_text :: string where
  \<open>today_text = ''Closed until <date normal="2026-11-04">November 4, 2026</date>''\<close>

definition example_xml_dates :: "string \<Rightarrow> error + string option list" where
  "example_xml_dates t =
     (if t = past_text then Inr [Some ''2020-01-01'']
      else if t = future_text then Inr [Some ''2030-01-01'']
      else if t = today_text then Inr [Some ''2026-11-04'']
      else Inr [])"

definition dated_note :: "string \<Rightarrow> note_json" where
  "dated_note t = \<lparr>jsonmodel_type = ''note_multipart'', note_type = Some ''accessrestrict'',
     publish = True, content = None, subnotes = Some [Subnote (Some t)]\<rparr>"

definition dated_objects :: "string \<Rightarrow> aspace_json option" where
  "dated_objects =
     [''/r/resources/1/tree'' \<mapsto>
        empty_json\<lparr>tree_children := Some [TreeNode ''/ao/1'' False [] [],
                                            TreeNode ''/ao/2'' False [] [],
                                            TreeNode ''/ao/3'' False [] []]\<rparr>,
      ''/ao/1'' \<mapsto> empty_json\<lparr>uri := Some ''/ao/1'', display_string := Some ''Box 1'',
                               json_notes := Some [dated_note past_text]\<rparr>,
      ''/ao/2'' \<mapsto> empty_json\<lparr>uri := Some ''/ao/2'', display_string := Some ''Box 2'',
                               json_notes := Some [dated_note future_text]\<rparr>,
      ''/ao/3'' \<mapsto> empty_json\<lparr>uri := Some ''/ao/3'', display_string := Some ''Box 3'',
                               json_notes := Some [dated_note today_text]\<rparr>]"

text \<open>
  The parent chain of a record ends: the record has no parent, or the fetch of its parent
  fails, or the chain of the fetched parent ends.
\<close>

inductive chain_ends :: "(string \<Rightarrow> aspace_json option) \<Rightarrow> aspace_json \<Rightarrow> bool"
  for objs :: "string \<Rightarrow> aspace_json option" where
  no_parent: "parent j = None \<Longrightarrow> chain_ends objs j"
| fetch_fails: "parent j = Some p \<Longrightarrow> objs p = None \<Longrightarrow> chain_ends objs j"
| step_up: "parent j = Some p \<Longrightarrow> objs p = Some pj \<Longrightarrow> chain_ends objs pj \<Longrightarrow> chain_ends objs j"

text \<open>
  Concrete records: one that names itself as its parent, and the chain of section 8, A with
  parent B with parent C.
\<close>

definition self_parent :: aspace_json where
  "self_parent = empty_json\<lparr>uri := Some ''/a'', title := Some ''A'', parent := Some ''/a''\<rparr>"

definition node_c :: aspace_json where
  "node_c = empty_json\<lparr>uri := Some ''/c'', title := Some ''C''\<rparr>"

definition node_b :: aspace_json where
  "node_b = empty_json\<lparr>uri := Some ''/b'', title := Some ''B'', parent := Some ''/c''\<rparr>"

definition node_a :: aspace_json where
  "node_a = empty_json\<lparr>uri := Some ''/a'', title := Some ''A'', parent := Some ''/b''\<rparr>"

text \<open>
  The uris the tree walker selects, in pre-order: a node is selected when it has an instance
  type and, if a type is asked for, has that one.
\<close>

definition node_selected :: "string option \<Rightarrow> string list \<Rightarrow> bool" where
  "node_selected instance_type its =
     (its \<noteq> [] \<and> (if truthy_str instance_type then instance_type_in instance_type its else True))"

fun filter_uris :: "string option \<Rightarrow> tree_node list \<Rightarrow> string list" where
  "filter_uris it [] = []"
| "filter_uris it (TreeNode u hc its cs # rest) =
     (if node_selected it its then [u] else []) @ (if hc then filter_uris it cs else [])
       @ filter_uris it rest"

text \<open>
  Orphan cleanup: a referenced object may be deleted when it is a digital object with one
  linked instance or a top container in one collection; \<open>cleanup_trace\<close> lists the requests
  of a cleanup that processes the uris \<open>us\<close> in turn.
\<close>

definition deletable :: "(string \<Rightarrow> aspace_json option) \<Rightarrow> string \<Rightarrow> bool" where
  "deletable objs u =
     (case objs u of
        None \<Rightarrow> False
      | Some j \<Rightarrow>
          if contains ''digital_objects'' u
            then (case linked_instances j of None \<Rightarrow> False | Some li \<Rightarrow> length li = 1)
          else if contains ''top_containers'' u
            then (case collection j of None \<Rightarrow> False | Some co \<Rightarrow> length co = 1)
          else False)"

definition cleanup_requests :: "(string \<Rightarrow> aspace_json option) \<Rightarrow> string \<Rightarrow> request list" where
  "cleanup_requests objs u =
     (if contains ''digital_objects'' u \<or> contains ''top_containers'' u
      then GET u # (if deletable objs u then [DELETE u] else [])
      else [])"

definition cleanup_trace :: "(string \<Rightarrow> aspace_json option) \<Rightarrow> string list \<Rightarrow> request list" where
  "cleanup_trace objs us = concat (map (cleanup_requests objs) us)"

definition without :: "(string \<Rightarrow> aspace_json option) \<Rightarrow> string list \<Rightarrow> string \<Rightarrow> aspace_json option" where
  "without objs ds u = (if u \<in> set ds then None else objs u)"

fun is_delete :: "request \<Rightarrow> bool" where
  "is_delete (DELETE u) = True"
| "is_delete (GET u) = False"
| "is_delete (POST u j) = False"

text \<open>
  A concrete backend for the container merge: containers 1 and 2 and one archival object
  whose only instance references container 1; and the same with a digital object instance
  added to the archival object.
\<close>

definition merge_objects :: "string \<Rightarrow> aspace_json option" where
  "merge_objects =
     [''/r/metadata_for_container/1'' \<mapsto> empty_json\<lparr>archival_objects := Some [''/ao/1'']\<rparr>,
      ''/r/top_containers/1'' \<mapsto> empty_json\<lparr>uri := Some ''/r/top_containers/1'', collection := Some [''/r/resources/1'']\<rparr>,
      ''/r/top_containers/2'' \<mapsto> empty_json\<lparr>uri := Some ''/r/top_containers/2'', collection := Some [''/r/resources/1'']\<rparr>,
      ''/ao/1'' \<mapsto> empty_json\<lparr>uri := Some ''/ao/1'',
         instances := Some [\<lparr>instance_kind = ''mixed_materials'', digital_object = None,
                              sub_container = Some ''/r/top_containers/1''\<rparr>]\<rparr>]"

definition merge_objects_digital :: "string \<Rightarrow> aspace_json option" where
  "merge_objects_digital =
     merge_objects(''/ao/1'' \<mapsto> empty_json\<lparr>uri := Some ''/ao/1'',
         instances := Some [\<lparr>instance_kind = ''mixed_materials'', digital_object = None,
                              sub_container = Some ''/r/top_containers/1''\<rparr>,
                            \<lparr>instance_kind = ''digital_object'',
                              digital_object = Some ''/r/digital_objects/7'',
                              sub_container = None\<rparr>]\<rparr>)"

text \<open>
  The references that the cleanup collects from the records \<open>cs\<close>: for each record in
  turn, the digital object or top container that each of its instances refers to.
\<close>

definition referenced_uris :: "(string \<Rightarrow> aspace_json option) \<Rightarrow> string list \<Rightarrow> string list" where
  "referenced_uris objs cs =
     concat (map (\<lambda>c. case objs c of
                          None \<Rightarrow> []
                        | Some j \<Rightarrow>
                            (case instances j of
                               None \<Rightarrow> []
                             | Some insts \<Rightarrow>
                                 (case instance_refs insts of Inl e \<Rightarrow> [] | Inr rs \<Rightarrow> rs))) cs)"

text \<open>
  A concrete backend for the cleanup: two archival objects that share top container 5,
  which is in one collection, and of which the first also has digital object 7, which has
  two linked instances.
\<close>

definition cleanup_objects :: "string \<Rightarrow> aspace_json option" where
  "cleanup_objects =
     [''/r/resources/1/tree'' \<mapsto>
        empty_json\<lparr>tree_children := Some [TreeNode ''/ao/1'' False [''box''] [],
                                            TreeNode ''/ao/2'' False [''box''] []]\<rparr>,
      ''/ao/1'' \<mapsto> empty_json\<lparr>uri := Some ''/ao/1'',
         instances := Some [\<lparr>instance_kind = ''mixed_materials'', digital_object = None,
                              sub_container = Some ''/r/top_containers/5''\<rparr>,
                            \<lparr>instance_kind = ''digital_object'',
                              digital_object = Some ''/r/digital_objects/7'',
                              sub_container = None\<rparr>]\<rparr>,
      ''/ao/2'' \<mapsto> empty_json\<lparr>uri := Some ''/ao/2'',
         instances := Some [\<lparr>instance_kind = ''mixed_materials'', digital_object = None,
                              sub_container = Some ''/r/top_containers/5''\<rparr>]\<rparr>,
      ''/r/top_containers/5'' \<mapsto>
         empty_json\<lparr>uri := Some ''/r/top_containers/5'', collection := Some [''/r/resources/1'']\<rparr>,
      ''/r/digital_objects/7'' \<mapsto>
         empty_json\<lparr>uri := Some ''/r/digital_objects/7'',
                     linked_instances := Some [''/ao/1'', ''/ao/9'']\<rparr>]"

text \<open>
  A single-part access restriction with two content items, and a concrete backend whose
  only archival object has a published access restriction with an empty content list.
\<close>

definition two_item_note :: note_json where
  "two_item_note = \<lparr>jsonmodel_type = ''note_singlepart'', note_type = Some ''accessrestrict'',
     publish = True, content = Some [''Closed'', ''Open''], subnotes = None\<rparr>"

definition empty_note :: note_json where
  "empty_note = \<lparr>jsonmodel_type = ''note_singlepart'', note_type = Some ''accessrestrict'',
     publish = True, content = Some [], subnotes = None\<rparr>"

definition empty_note_objects :: "string \<Rightarrow> aspace_json option" where
  "empty_note_objects =
     [''/r/resources/1/tree'' \<mapsto> empty_json\<lparr>tree_children := Some [TreeNode ''/ao/1'' False [] []]\<rparr>,
      ''/ao/1'' \<mapsto> empty_json\<lparr>uri := Some ''/ao/1'', display_string := Some ''Box 1'',
                               json_notes := Some [empty_note]\<rparr>]"

text \<open>
  Every published access restriction of every record that a sweep of the resource visits
  has a formatted text.
\<close>

definition visited_notes_format :: "string \<Rightarrow> string \<Rightarrow> state \<Rightarrow> bool" where
  "visited_notes_format repository resource_number s =
     (\<forall>tree cs u ao n.
        objects s (tree_uri repository resource_number) = Some tree \<and> tree_children tree = Some cs
        \<and> u \<in> set (extract_default s @ flatten_uris cs) \<and> objects s u = Some ao
        \<and> n \<in> set (notes_of ao) \<and> note_type n = Some ''accessrestrict'' \<and> publish n
        \<longrightarrow> (\<exists>v. format_note n = Inr v))"

text \<open>
  Concrete records for the display string: a series with a stored display string, and a
  child of it that has dates and no title.
\<close>

definition series :: aspace_json where
  "series = empty_json\<lparr>uri := Some ''/ao/1'', title := Some ''Other title'',
     display_string := Some ''<emph>Series 1</emph> ''\<rparr>"

definition dated_child :: aspace_json where
  "dated_child = empty_json\<lparr>uri := Some ''/ao/2'', parent := Some ''/ao/1'',
     dates := Some [\<lparr>date_type = ''inclusive'', date_expression = None,
                       date_begin = Some ''1900'', date_end = Some ''1910''\<rparr>]\<rparr>"

section \<open>The walkers and their default arguments\<close>

lemma extract_flatten:
  "extract_archival_object_uris_from_children cs acc = acc @ flatten_uris cs"
  by (induction cs acc rule: extract_archival_object_uris_from_children.induct) auto

lemma find_filter:
  "find_children_with_instances cs acc it = acc @ filter_uris it cs"
  by (induction cs acc it rule: find_children_with_instances.induct)
     (auto simp: node_selected_def Let_def)

lemma extract_second_call:
  "fst (call_extract_archival_object_uris_from_children cs
          (snd (call_extract_archival_object_uris_from_children cs s)))
     = fst (call_extract_archival_object_uris_from_children cs s) @ flatten_uris cs"
  by (simp add: call_extract_archival_object_uris_from_children_def Let_def extract_flatten)

lemma find_second_call:
  "fst (call_find_children_with_instances cs it (snd (call_find_children_with_instances cs it s)))
     = fst (call_find_children_with_instances cs it s) @ filter_uris it cs"
  by (simp add: call_find_children_with_instances_def Let_def find_filter)

text \<open>
  C1. The claim is that two successive top-level calls of a walker on the same tree return
  equal results, each a fresh list. Evaluated on the one-node tree \<open>[/a]\<close> in a fresh process,
  the first call of the uri extractor returns \<open>[/a]\<close> and the second \<open>[/a, /a]\<close>, and
  likewise for the tree walker: the second call appends to what the first one left in the
  default list.
\<close>

theorem walkers_share_default_list:
  "fst (call_extract_archival_object_uris_from_children [TreeNode ''/a'' False [''top_container''] []]
          (initial_state Map.empty)) = [''/a'']
   \<and> fst (call_extract_archival_object_uris_from_children [TreeNode ''/a'' False [''top_container''] []]
          (snd (call_extract_archival_object_uris_from_children
                  [TreeNode ''/a'' False [''top_container''] []] (initial_state Map.empty))))
       = [''/a'', ''/a'']
   \<and> fst (call_find_children_with_instances [TreeNode ''/a'' False [''top_container''] []] None
          (initial_state Map.empty)) = [''/a'']
   \<and> fst (call_find_children_with_instances [TreeNode ''/a'' False [''top_container''] []] None
          (snd (call_find_children_with_instances
                  [TreeNode ''/a'' False [''top_container''] []] None (initial_state Map.empty))))
       = [''/a'', ''/a'']"
  by (simp add: call_extract_archival_object_uris_from_children_def
      call_find_children_with_instances_def initial_state_def Let_def truthy_str_def)

section \<open>Date formatter\<close>

lemma format_dates_loop_eq:
  "format_dates_loop ds inc bulk =
     (inc @ map (\<lambda>d. strip (date_text d)) (filter (\<lambda>d. date_type d = ''inclusive'') ds),
      bulk @ map (\<lambda>d. strip (date_text d)) (filter (\<lambda>d. date_type d = ''bulk'') ds))"
  by (induction ds arbitrary: inc bulk) auto

lemma date_text_spec: "date_text d = spec_effective_expression d"
  by (auto simp: date_text_def spec_effective_expression_def truthy_str_def Let_def
      split: option.splits)

lemma format_dates_eq:
  "format_dates j =
     (case dates j of
        None \<Rightarrow> []
      | Some ds \<Rightarrow>
          join '', '' (map (\<lambda>d. strip (date_text d)) (filter (\<lambda>d. date_type d = ''inclusive'') ds))
          @ (case filter (\<lambda>d. date_type d = ''bulk'') ds of
               [] \<Rightarrow> []
             | b # _ \<Rightarrow> '' (bulk '' @ strip (date_text b) @ '')''))"
  by (auto simp: format_dates_def truthy_list_def format_dates_loop_eq
      split: option.splits list.splits)

text \<open>
  Where every inclusive entry has a non-empty trimmed expression, the output is the one
  the specification describes.
\<close>

lemma format_dates_spec:
  assumes "\<And>d ds. dates j = Some ds \<Longrightarrow> d \<in> set ds \<Longrightarrow> date_type d = ''inclusive''
             \<Longrightarrow> strip (date_text d) \<noteq> []"
  shows "format_dates j = spec_format_dates j"
proof (cases "dates j")
  case None
  then show ?thesis by (simp add: format_dates_eq spec_format_dates_def)
next
  case (Some ds)
  have "filter (\<lambda>t. t \<noteq> [])
          (map (\<lambda>d. strip (date_text d)) (filter (\<lambda>d. date_type d = ''inclusive'') ds))
      = map (\<lambda>d. strip (date_text d)) (filter (\<lambda>d. date_type d = ''inclusive'') ds)"
    using assms[OF Some] by (induction ds) auto
  then show ?thesis using Some
    by (simp add: format_dates_eq spec_format_dates_def date_text_spec[symmetric] Let_def
        split: list.splits)
qed

text \<open>
  C3, as stated, fails: for the dates list of an inclusive entry with expression \<open>1900\<close>
  followed by an inclusive entry with neither expression nor begin, the formatter returns
  \<open>1900, \<close> (the empty expression is joined as well), where the output described by the
  claim is \<open>1900\<close>.
\<close>

theorem format_dates_keeps_empty_expression:
  "format_dates (empty_json\<lparr>dates := Some
      [\<lparr>date_type = ''inclusive'', date_expression = Some ''1900'', date_begin = None,
         date_end = None\<rparr>,
       \<lparr>date_type = ''inclusive'', date_expression = None, date_begin = None,
         date_end = None\<rparr>]\<rparr>) = ''1900, ''
   \<and> spec_format_dates (empty_json\<lparr>dates := Some
      [\<lparr>date_type = ''inclusive'', date_expression = Some ''1900'', date_begin = None,
         date_end = None\<rparr>,
       \<lparr>date_type = ''inclusive'', date_expression = None, date_begin = None,
         date_end = None\<rparr>]\<rparr>) = ''1900''
   \<and> format_dates (empty_json\<lparr>dates := Some
      [\<lparr>date_type = ''inclusive'', date_expression = Some ''1900'', date_begin = None,
         date_end = None\<rparr>,
       \<lparr>date_type = ''inclusive'', date_expression = None, date_begin = None,
         date_end = None\<rparr>]\<rparr>)
     \<noteq> spec_format_dates (empty_json\<lparr>dates := Some
      [\<lparr>date_type = ''inclusive'', date_expression = Some ''1900'', date_begin = None,
         date_end = None\<rparr>,
       \<lparr>date_type = ''inclusive'', date_expression = None, date_begin = None,
         date_end = None\<rparr>]\<rparr>)"
  by (simp add: format_dates_def spec_format_dates_def spec_effective_expression_def
      truthy_list_def truthy_str_def date_text_def empty_json_def strip_def isspace_def Let_def)

text \<open>
  C3, amended: the date formatter computes each entry's effective expression (the
  expression if present; else begin-end when both are present; else begin alone; else
  empty), and its output is the join, with \<open>, \<close> between the items, of the trimmed
  expressions of all inclusive entries, the empty ones included, with
  \<open> (bulk <first bulk expression, trimmed>)\<close> appended when at least one bulk entry exists;
  entries of another date type are ignored, and an absent or empty dates list yields the
  empty string.
\<close>

theorem format_dates_joins_all_inclusive:
  "format_dates j =
     (case dates j of
        None \<Rightarrow> []
      | Some ds \<Rightarrow>
          join '', '' (map (\<lambda>d. strip (spec_effective_expression d))
                        (filter (\<lambda>d. date_type d = ''inclusive'') ds))
          @ (case filter (\<lambda>d. date_type d = ''bulk'') ds of
               [] \<Rightarrow> []
             | b # _ \<Rightarrow> '' (bulk '' @ strip (spec_effective_expression b) @ '')''))"
  by (simp add: format_dates_eq date_text_spec split: option.splits list.splits)

section \<open>The loops of the restriction sweeps\<close>

lemma notes_loop_result:
  assumes "\<And>n n' e. step n = Inr (n', e) \<Longrightarrow>
             n' = unpublish_if P n \<and> e = (if P n then Some (E n) else None)"
  shows "notes_loop step ns upd l = Inr (ns', upd', l') \<Longrightarrow>
     ns' = map (unpublish_if P) ns \<and> upd' = (upd \<or> filter P ns \<noteq> []) \<and> l' = l @ map E (filter P ns)"
proof (induction ns arbitrary: upd l ns' upd' l')
  case Nil
  then show ?case by simp
next
  case (Cons n ns)
  from Cons.prems obtain n1 e where st: "step n = Inr (n1, e)"
    by (auto split: sum.splits)
  from assms[OF st] have n1: "n1 = unpublish_if P n" and e: "e = (if P n then Some (E n) else None)"
    by simp_all
  show ?case
  proof (cases "P n")
    case True
    with Cons.prems st e obtain ns1 where
      r: "notes_loop step ns True (l @ [E n]) = Inr (ns1, upd', l')" and ns': "ns' = n1 # ns1"
      by (auto split: sum.splits)
    from Cons.IH[OF r] True n1 ns' show ?thesis by simp
  next
    case False
    with Cons.prems st e obtain ns1 where
      r: "notes_loop step ns upd l = Inr (ns1, upd', l')" and ns': "ns' = n1 # ns1"
      by (auto split: sum.splits)
    from Cons.IH[OF r] False n1 ns' show ?thesis by simp
  qed
qed

lemma notes_loop_steps:
  "notes_loop step ns upd l = Inr r \<Longrightarrow> n \<in> set ns \<Longrightarrow> \<exists>n' e. step n = Inr (n', e)"
proof (induction ns arbitrary: upd l r)
  case Nil
  then show ?case by simp
next
  case (Cons m ns)
  from Cons.prems(1) obtain m1 e where st: "step m = Inr (m1, e)"
    by (auto split: sum.splits)
  show ?case
  proof (cases "n = m")
    case True
    with st show ?thesis by blast
  next
    case False
    with Cons.prems(2) have "n \<in> set ns" by simp
    moreover from Cons.prems(1) st obtain upd1 l1 r1 where "notes_loop step ns upd1 l1 = Inr r1"
      by (cases e) (auto split: sum.splits)
    ultimately show ?thesis using Cons.IH by blast
  qed
qed

lemma notes_loop_unchanged:
  "(\<And>n. n \<in> set ns \<Longrightarrow> step n = Inr (n, None)) \<Longrightarrow> notes_loop step ns upd l = Inr (ns, upd, l)"
  by (induction ns) auto

lemma notes_loop_fails:
  "notes_loop step pre upd l = Inr r \<Longrightarrow> step n = Inl e \<Longrightarrow>
     notes_loop step (pre @ n # post) upd l = Inl e"
proof (induction pre arbitrary: upd l r)
  case Nil
  then show ?case by simp
next
  case (Cons m pre)
  from Cons.prems(1) obtain m1 e1 where st: "step m = Inr (m1, e1)"
    by (auto split: sum.splits)
  from Cons.prems(1) st obtain upd1 l1 r1 where
    r: "notes_loop step pre upd1 l1 = Inr r1"
    and u: "(e1 = None \<and> upd1 = upd \<and> l1 = l) \<or> (\<exists>en. e1 = Some en \<and> upd1 = True \<and> l1 = l @ [en])"
    by (cases e1) (auto split: sum.splits)
  from Cons.IH[OF r Cons.prems(2)] have "notes_loop step (pre @ n # post) upd1 l1 = Inl e" .
  with st u show ?case by auto
qed

lemma sweep_loop_visit:
  assumes "sweep_loop step (u # rest) l s = (Inr l', s')"
  obtains ao ns ns' upd l1 where
    "objects s u = Some ao" "json_notes ao = Some ns"
    "notes_loop (step u ao) ns False l = Inr (ns', upd, l1)"
    "sweep_loop step rest l1
       (if upd then session_post u (ao\<lparr>json_notes := Some ns'\<rparr>) (s\<lparr>trace := trace s @ [GET u]\<rparr>)
        else s\<lparr>trace := trace s @ [GET u]\<rparr>) = (Inr l', s')"
  using assms
  by (auto simp: get_aspace_json_def split: option.splits sum.splits prod.splits if_splits)

lemma unpublish_if_idem:
  "selects_published P \<Longrightarrow> unpublish_if P (unpublish_if P n) = unpublish_if P n"
  by (auto simp: unpublish_if_def selects_published_def)

lemma not_selected_after:
  "selects_published P \<Longrightarrow> \<not> P (unpublish_if P n)"
  by (auto simp: unpublish_if_def selects_published_def)

lemma filter_selected_after:
  "selects_published P \<Longrightarrow> filter P (map (unpublish_if P) ns) = []"
  by (induction ns) (auto simp: not_selected_after)

lemma unpublish_where_idem:
  "selects_published P \<Longrightarrow> unpublish_where P (unpublish_where P ao) = unpublish_where P ao"
  by (auto simp: unpublish_where_def unpublish_if_idem split: option.splits)

lemma unpublish_where_none_selected:
  "filter P (notes_of ao) = [] \<Longrightarrow> unpublish_where P ao = ao"
proof (cases "json_notes ao")
  case None
  then show ?thesis by (simp add: unpublish_where_def)
next
  case (Some ns)
  assume "filter P (notes_of ao) = []"
  with Some have "\<And>n. n \<in> set ns \<Longrightarrow> \<not> P n"
    by (auto simp: notes_of_def filter_empty_conv)
  then have "map (unpublish_if P) ns = ns"
    by (induction ns) (auto simp: unpublish_if_def)
  with Some show ?thesis by (simp add: unpublish_where_def)
qed

lemma store_after_Cons:
  "selects_published P \<Longrightarrow>
     store_after P rest (store_after P [u] objs) = store_after P (u # rest) objs"
  by (rule ext) (auto simp: store_after_def unpublish_where_idem option.map_comp comp_def
      split: option.splits)

lemma sweep_loop_visit_spec:
  assumes spec: "step_spec step P"
    and run: "sweep_loop step (u # rest) l s = (Inr l', s')"
  obtains ao ns s2 where
    "objects s u = Some ao" "json_notes ao = Some ns"
    "\<And>n. n \<in> set ns \<Longrightarrow> \<exists>n' e. step u ao n = Inr (n', e)"
    "sweep_loop step rest (l @ entries_at P (objects s) u) s2 = (Inr l', s')"
    "objects s2 = store_after P [u] (objects s)"
    "trace s2 = trace s @ GET u # posts_at P (objects s) u"
proof -
  from run obtain ao ns ns' upd l1 where
    ao: "objects s u = Some ao" and ns: "json_notes ao = Some ns"
    and nl: "notes_loop (step u ao) ns False l = Inr (ns', upd, l1)"
    and rest: "sweep_loop step rest l1
       (if upd then session_post u (ao\<lparr>json_notes := Some ns'\<rparr>) (s\<lparr>trace := trace s @ [GET u]\<rparr>)
        else s\<lparr>trace := trace s @ [GET u]\<rparr>) = (Inr l', s')"
    by (rule sweep_loop_visit)
  have st: "\<And>n n' e. step u ao n = Inr (n', e) \<Longrightarrow>
      n' = unpublish_if P n \<and> e = (if P n then Some (entry_for u ao n) else None)"
    using spec by (simp add: step_spec_def)
  from notes_loop_result[of "step u ao" P "entry_for u ao", OF st nl]
  have ns': "ns' = map (unpublish_if P) ns" and upd: "upd = (filter P ns \<noteq> [])"
    and l1: "l1 = l @ map (entry_for u ao) (filter P ns)"
    by simp_all
  have steps: "\<And>n. n \<in> set ns \<Longrightarrow> \<exists>n' e. step u ao n = Inr (n', e)"
    using notes_loop_steps[OF nl] by blast
  have notes_of: "notes_of ao = ns" using ns by (simp add: notes_of_def)
  have uw: "ao\<lparr>json_notes := Some ns'\<rparr> = unpublish_where P ao"
    using ns ns' by (simp add: unpublish_where_def)
  have l1': "l1 = l @ entries_at P (objects s) u"
    using l1 ao notes_of by (simp add: entries_at_def)
  define s2 where "s2 = (if upd then session_post u (ao\<lparr>json_notes := Some ns'\<rparr>) (s\<lparr>trace := trace s @ [GET u]\<rparr>)
        else s\<lparr>trace := trace s @ [GET u]\<rparr>)"
  have objs: "objects s2 = store_after P [u] (objects s)"
  proof (cases upd)
    case True
    then show ?thesis using ao uw
      by (auto simp: s2_def session_post_def store_after_def)
  next
    case False
    with upd notes_of have "unpublish_where P ao = ao"
      by (simp add: unpublish_where_none_selected)
    with False ao show ?thesis
      by (auto simp: s2_def store_after_def)
  qed
  have tr: "trace s2 = trace s @ GET u # posts_at P (objects s) u"
    using ao upd notes_of uw by (simp add: s2_def session_post_def posts_at_def)
  from rest l1' have "sweep_loop step rest (l @ entries_at P (objects s) u) s2 = (Inr l', s')"
    by (simp add: s2_def)
  with ao ns steps objs tr show ?thesis using that by blast
qed

lemma concat_map_except:
  assumes "g2 u = []" and "\<And>v. v \<noteq> u \<Longrightarrow> g2 v = g v"
  shows "concat (map g2 xs) = concat (map g (filter (\<lambda>y. y \<noteq> u) xs))"
  using assms by (induction xs) auto

lemma notes_of_unpublish_where:
  "notes_of (unpublish_where P ao) = map (unpublish_if P) (notes_of ao)"
  by (simp add: notes_of_def unpublish_where_def split: option.splits)

lemma entries_at_after:
  assumes "selects_published P"
  shows "entries_at P (store_after P [u] objs) v = (if v = u then [] else entries_at P objs v)"
  using assms
  by (auto simp: entries_at_def store_after_def notes_of_unpublish_where filter_selected_after
      split: option.splits)

lemma posts_at_after:
  assumes "selects_published P"
  shows "posts_at P (store_after P [u] objs) v = (if v = u then [] else posts_at P objs v)"
  using assms
  by (auto simp: posts_at_def store_after_def notes_of_unpublish_where filter_selected_after
      split: option.splits)

lemma sweep_log_Cons:
  assumes "selects_published P"
  shows "sweep_log P objs (u # rest) =
     entries_at P objs u @ sweep_log P (store_after P [u] objs) rest"
proof -
  have "concat (map (entries_at P (store_after P [u] objs)) (first_occurrences rest))
      = concat (map (entries_at P objs) (filter (\<lambda>y. y \<noteq> u) (first_occurrences rest)))"
    by (rule concat_map_except) (simp_all add: entries_at_after[OF assms])
  then show ?thesis by (simp add: sweep_log_def)
qed

lemma sweep_posts_Cons:
  assumes "selects_published P"
  shows "sweep_posts P objs (u # rest) =
     posts_at P objs u @ sweep_posts P (store_after P [u] objs) rest"
proof -
  have "concat (map (posts_at P (store_after P [u] objs)) (first_occurrences rest))
      = concat (map (posts_at P objs) (filter (\<lambda>y. y \<noteq> u) (first_occurrences rest)))"
    by (rule concat_map_except) (simp_all add: posts_at_after[OF assms])
  then show ?thesis by (simp add: sweep_posts_def)
qed

lemma posts_at_are_posts: "filter is_post (posts_at P objs u) = posts_at P objs u"
  by (simp add: posts_at_def split: option.splits)

lemma sweep_loop_spec:
  assumes spec: "step_spec step P" and sel: "selects_published P"
  shows "sweep_loop step us l s = (Inr l', s') \<Longrightarrow>
     objects s' = store_after P us (objects s)
     \<and> l' = l @ sweep_log P (objects s) us
     \<and> filter is_post (trace s') = filter is_post (trace s) @ sweep_posts P (objects s) us"
proof (induction us arbitrary: l s)
  case Nil
  then show ?case
    by (auto simp: store_after_def sweep_log_def sweep_posts_def)
next
  case (Cons u rest)
  from spec Cons.prems obtain ao ns s2 where
    "objects s u = Some ao" "json_notes ao = Some ns"
    "\<And>n. n \<in> set ns \<Longrightarrow> \<exists>n' e. step u ao n = Inr (n', e)"
    and run: "sweep_loop step rest (l @ entries_at P (objects s) u) s2 = (Inr l', s')"
    and objs: "objects s2 = store_after P [u] (objects s)"
    and tr: "trace s2 = trace s @ GET u # posts_at P (objects s) u"
    by (rule sweep_loop_visit_spec) blast
  from Cons.IH[OF run]
  have a: "objects s' = store_after P rest (objects s2)"
    and b: "l' = (l @ entries_at P (objects s) u) @ sweep_log P (objects s2) rest"
    and c: "filter is_post (trace s') = filter is_post (trace s2) @ sweep_posts P (objects s2) rest"
    by simp_all
  have "objects s' = store_after P (u # rest) (objects s)"
    using a objs store_after_Cons[OF sel] by simp
  moreover have "l' = l @ sweep_log P (objects s) (u # rest)"
    using b objs sweep_log_Cons[OF sel] by simp
  moreover have "filter is_post (trace s') =
      filter is_post (trace s) @ sweep_posts P (objects s) (u # rest)"
    using c objs tr sweep_posts_Cons[OF sel] by (simp add: posts_at_are_posts)
  ultimately show ?case by simp
qed

lemma store_after_other: "v \<noteq> u \<Longrightarrow> store_after P [u] objs v = objs v"
  by (simp add: store_after_def)

lemma sweep_loop_steps_succeed:
  assumes spec: "step_spec step P"
  shows "sweep_loop step us l s = (Inr l', s') \<Longrightarrow> u \<in> set us \<Longrightarrow>
     \<exists>ao ns. objects s u = Some ao \<and> json_notes ao = Some ns
       \<and> (\<forall>n\<in>set ns. \<exists>n' e. step u ao n = Inr (n', e))"
proof (induction us arbitrary: l s)
  case Nil
  then show ?case by simp
next
  case (Cons v rest)
  from spec Cons.prems(1) obtain ao ns s2 where
    ao: "objects s v = Some ao" "json_notes ao = Some ns"
    and steps: "\<And>n. n \<in> set ns \<Longrightarrow> \<exists>n' e. step v ao n = Inr (n', e)"
    and run: "sweep_loop step rest (l @ entries_at P (objects s) v) s2 = (Inr l', s')"
    and objs: "objects s2 = store_after P [v] (objects s)"
    and "trace s2 = trace s @ GET v # posts_at P (objects s) v"
    by (rule sweep_loop_visit_spec) blast
  show ?case
  proof (cases "u = v")
    case True
    with ao steps show ?thesis by blast
  next
    case False
    with Cons.prems(2) have "u \<in> set rest" by simp
    from Cons.IH[OF run this] objs False show ?thesis
      by (simp add: store_after_other)
  qed
qed

lemma sweep_loop_clean:
  assumes "\<And>u. u \<in> set us \<Longrightarrow> \<exists>ao ns. objects s u = Some ao \<and> json_notes ao = Some ns
       \<and> (\<forall>n\<in>set ns. step u ao n = Inr (n, None))"
  shows "sweep_loop step us l s = (Inr l, s\<lparr>trace := trace s @ map GET us\<rparr>)"
  using assms
proof (induction us arbitrary: s)
  case Nil
  then show ?case by simp
next
  case (Cons u rest)
  from Cons.prems[of u] obtain ao ns where
    ao: "objects s u = Some ao" "json_notes ao = Some ns"
    and st: "\<And>n. n \<in> set ns \<Longrightarrow> step u ao n = Inr (n, None)"
    by auto
  have nl: "notes_loop (step u ao) ns False l = Inr (ns, False, l)"
    using st by (rule notes_loop_unchanged)
  have "sweep_loop step rest l (s\<lparr>trace := trace s @ [GET u]\<rparr>)
      = (Inr l, s\<lparr>trace := trace s @ [GET u]\<rparr>\<lparr>trace := trace (s\<lparr>trace := trace s @ [GET u]\<rparr>) @ map GET rest\<rparr>)"
    by (rule Cons.IH) (use Cons.prems in auto)
  with ao nl show ?case by (simp add: get_aspace_json_def)
qed

lemma expired_step_spec: "step_spec (expired_note_step today xml_dates) (expired today xml_dates)"
  unfolding step_spec_def
proof (intro allI impI)
  fix u ao n n' e
  assume "expired_note_step today xml_dates u ao n = Inr (n', e)"
  then show "n' = unpublish_if (expired today xml_dates) n \<and>
     e = (if expired today xml_dates n then Some (entry_for u ao n) else None)"
    by (auto simp: expired_note_step_def expired_def unpublish_if_def entry_for_def
        split: option.splits sum.splits list.splits if_splits)
qed

lemma text_step_spec: "step_spec (text_note_step t) (text_matches t)"
  unfolding step_spec_def
proof (intro allI impI)
  fix u ao n n' e
  assume "text_note_step t u ao n = Inr (n', e)"
  then show "n' = unpublish_if (text_matches t) n \<and>
     e = (if text_matches t n then Some (entry_for u ao n) else None)"
    by (auto simp: text_note_step_def text_matches_def unpublish_if_def entry_for_def
        split: option.splits sum.splits list.splits if_splits)
qed

lemma expired_selects_published: "selects_published (expired today xml_dates)"
  by (simp add: selects_published_def expired_def)

lemma text_selects_published: "selects_published (text_matches t)"
  by (simp add: selects_published_def text_matches_def)

lemma text_step_stable:
  "text_note_step t u ao n = Inr (n', e) \<Longrightarrow> text_note_step t u' ao' n' = Inr (n', None)"
  by (auto simp: text_note_step_def split: option.splits sum.splits if_splits)

lemma expired_step_stable:
  "expired_note_step today xml_dates u ao n = Inr (n', e) \<Longrightarrow>
     expired_note_step today xml_dates u' ao' n' = Inr (n', None)"
  by (auto simp: expired_note_step_def split: option.splits sum.splits list.splits if_splits)

lemma get_uris_result:
  assumes "get_resource_archival_object_uris repository resource_number s = (Inr us, s1)"
  obtains tree cs where
    "objects s (tree_uri repository resource_number) = Some tree"
    "tree_children tree = Some cs"
    "us = extract_default s @ flatten_uris cs"
    "s1 = s\<lparr>trace := trace s @ [GET (tree_uri repository resource_number)], extract_default := us\<rparr>"
  using assms
  by (auto simp: get_resource_archival_object_uris_def get_resource_tree_def get_aspace_json_def
      call_extract_archival_object_uris_from_children_def tree_uri_def extract_flatten Let_def
      split: option.splits)

lemma note_change_refl: "note_change P n n"
  by (simp add: note_change_def)

lemma record_change_refl: "record_change P ao ao"
  by (simp add: record_change_def list_all2_refl note_change_refl)

lemma store_change_refl: "store_change P objs objs"
  by (simp add: store_change_def record_change_refl split: option.splits)

lemma note_change_unpublish_if: "note_change P n (unpublish_if P n)"
  by (simp add: note_change_def unpublish_if_def)

lemma record_change_unpublish_where: "record_change P ao (unpublish_where P ao)"
proof (cases "json_notes ao")
  case None
  then show ?thesis by (simp add: unpublish_where_def record_change_refl)
next
  case (Some ns)
  have "list_all2 (note_change P) ns (map (unpublish_if P) ns)"
    by (induction ns) (simp_all add: note_change_unpublish_if)
  with Some show ?thesis
    by (simp add: record_change_def unpublish_where_def notes_of_def)
qed

lemma note_change_trans:
  assumes "selects_published P" "note_change P a b" "note_change P b c"
  shows "note_change P a c"
  using assms by (auto simp: note_change_def selects_published_def)

lemma list_all2_note_change_trans:
  assumes "selects_published P"
  shows "list_all2 (note_change P) xs ys \<Longrightarrow> list_all2 (note_change P) ys zs \<Longrightarrow>
     list_all2 (note_change P) xs zs"
proof (induction xs ys arbitrary: zs rule: list_all2_induct)
  case Nil
  then show ?case by simp
next
  case (Cons x xs y ys)
  from Cons.prems obtain z zs' where zs: "zs = z # zs'" and yz: "note_change P y z"
    and rest: "list_all2 (note_change P) ys zs'"
    by (auto simp: list_all2_Cons1)
  from note_change_trans[OF assms Cons.hyps(1) yz] Cons.IH[OF rest] zs
  show ?case by simp
qed

lemma update_notes_twice:
  "b = a\<lparr>json_notes := x\<rparr> \<Longrightarrow> c = b\<lparr>json_notes := y\<rparr> \<Longrightarrow> c = a\<lparr>json_notes := y\<rparr>"
  by simp

lemma record_change_trans:
  assumes "selects_published P" "record_change P a b" "record_change P b c"
  shows "record_change P a c"
proof -
  from assms(2) have b: "b = a\<lparr>json_notes := json_notes b\<rparr>"
    by (simp add: record_change_def)
  from assms(3) have c: "c = b\<lparr>json_notes := json_notes c\<rparr>"
    by (simp add: record_change_def)
  from b c have "c = a\<lparr>json_notes := json_notes c\<rparr>" by (rule update_notes_twice)
  moreover have "list_all2 (note_change P) (notes_of a) (notes_of c)"
  proof (rule list_all2_note_change_trans[OF assms(1)])
    show "list_all2 (note_change P) (notes_of a) (notes_of b)"
      using assms(2) by (simp add: record_change_def)
    show "list_all2 (note_change P) (notes_of b) (notes_of c)"
      using assms(3) by (simp add: record_change_def)
  qed
  ultimately show ?thesis by (simp add: record_change_def)
qed

lemma store_change_at:
  "store_change P a b \<Longrightarrow>
     (case a u of None \<Rightarrow> b u = None
      | Some ao \<Rightarrow> (case b u of None \<Rightarrow> False | Some ao' \<Rightarrow> record_change P ao ao'))"
  by (simp add: store_change_def)

lemma store_change_trans:
  assumes "selects_published P" "store_change P a b" "store_change P b c"
  shows "store_change P a c"
  unfolding store_change_def
proof
  fix u
  show "case a u of None \<Rightarrow> c u = None
        | Some ao \<Rightarrow> (case c u of None \<Rightarrow> False | Some ao' \<Rightarrow> record_change P ao ao')"
  proof (cases "a u")
    case None
    with store_change_at[OF assms(2), of u] have "b u = None" by simp
    with store_change_at[OF assms(3), of u] have "c u = None" by simp
    with None show ?thesis by simp
  next
    case (Some ao)
    with store_change_at[OF assms(2), of u] obtain bo where
      bo: "b u = Some bo" "record_change P ao bo"
      by (cases "b u") simp_all
    with store_change_at[OF assms(3), of u] obtain co where
      co: "c u = Some co" "record_change P bo co"
      by (cases "c u") simp_all
    from record_change_trans[OF assms(1) bo(2) co(2)] Some co(1) show ?thesis by simp
  qed
qed

lemma store_change_visit: "store_change P objs (store_after P [u] objs)"
  unfolding store_change_def
proof
  fix v
  show "case objs v of None \<Rightarrow> store_after P [u] objs v = None
        | Some ao \<Rightarrow> (case store_after P [u] objs v of None \<Rightarrow> False
                      | Some ao' \<Rightarrow> record_change P ao ao')"
    by (cases "objs v"; cases "v = u")
       (simp_all add: store_after_def record_change_refl record_change_unpublish_where)
qed

lemma sweep_loop_visit_any:
  assumes spec: "step_spec step P"
    and run: "sweep_loop step (u # rest) l s = (r, s')"
  shows "objects s' = objects s \<or>
     (\<exists>l1 s2. objects s2 = store_after P [u] (objects s) \<and> sweep_loop step rest l1 s2 = (r, s'))"
proof (cases "objects s u")
  case None
  with run show ?thesis by (auto simp: get_aspace_json_def)
next
  case (Some ao)
  show ?thesis
  proof (cases "json_notes ao")
    case None
    with Some run show ?thesis by (auto simp: get_aspace_json_def)
  next
    case ns: (Some ns)
    show ?thesis
    proof (cases "notes_loop (step u ao) ns False l")
      case (Inl e)
      with Some ns run show ?thesis by (auto simp: get_aspace_json_def)
    next
      case (Inr res)
      then obtain ns' upd l1 where nl: "notes_loop (step u ao) ns False l = Inr (ns', upd, l1)"
        by (cases res) auto
      have st: "\<And>n n' e. step u ao n = Inr (n', e) \<Longrightarrow>
          n' = unpublish_if P n \<and> e = (if P n then Some (entry_for u ao n) else None)"
        using spec by (simp add: step_spec_def)
      from notes_loop_result[of "step u ao" P "entry_for u ao", OF st nl]
      have ns': "ns' = map (unpublish_if P) ns" and upd: "upd = (filter P ns \<noteq> [])"
        by simp_all
      have notes_of: "notes_of ao = ns" using ns by (simp add: notes_of_def)
      have uw: "ao\<lparr>json_notes := Some ns'\<rparr> = unpublish_where P ao"
        using ns ns' by (simp add: unpublish_where_def)
      define s2 where "s2 = (if upd then session_post u (ao\<lparr>json_notes := Some ns'\<rparr>) (s\<lparr>trace := trace s @ [GET u]\<rparr>)
        else s\<lparr>trace := trace s @ [GET u]\<rparr>)"
      have objs: "objects s2 = store_after P [u] (objects s)"
      proof (cases upd)
        case True
        then show ?thesis using Some uw
          by (auto simp: s2_def session_post_def store_after_def)
      next
        case False
        with upd notes_of have "unpublish_where P ao = ao"
          by (simp add: unpublish_where_none_selected)
        with False Some show ?thesis
          by (auto simp: s2_def store_after_def)
      qed
      from run Some ns nl have "sweep_loop step rest l1 s2 = (r, s')"
        by (simp add: get_aspace_json_def s2_def)
      with objs show ?thesis by blast
    qed
  qed
qed

lemma sweep_loop_store_change:
  assumes spec: "step_spec step P" and sel: "selects_published P"
  shows "sweep_loop step us l s = (r, s') \<Longrightarrow> store_change P (objects s) (objects s')"
proof (induction us arbitrary: l s)
  case Nil
  then show ?case by (auto simp: store_change_refl)
next
  case (Cons u rest)
  from sweep_loop_visit_any[OF spec Cons.prems]
  show ?case
  proof
    assume "objects s' = objects s"
    then show ?thesis by (simp add: store_change_refl)
  next
    assume "\<exists>l1 s2. objects s2 = store_after P [u] (objects s) \<and> sweep_loop step rest l1 s2 = (r, s')"
    then obtain l1 s2 where objs: "objects s2 = store_after P [u] (objects s)"
      and run: "sweep_loop step rest l1 s2 = (r, s')" by blast
    have "store_change P (objects s) (objects s2)"
      using objs store_change_visit by simp
    from store_change_trans[OF sel this Cons.IH[OF run]] show ?thesis .
  qed
qed

lemma get_uris_objects:
  "get_resource_archival_object_uris repository resource_number s = (r, s1) \<Longrightarrow>
     objects s1 = objects s"
  by (auto simp: get_resource_archival_object_uris_def get_resource_tree_def get_aspace_json_def
      call_extract_archival_object_uris_from_children_def Let_def
      split: option.splits)

lemma expiry_sweep_store_change:
  assumes "unpublish_expired_restrictions_for_resource repository today xml_dates resource_number s = (r, s')"
  shows "store_change (expired today xml_dates) (objects s) (objects s')"
proof (cases "get_resource_archival_object_uris repository resource_number s")
  case (Pair r1 s1)
  have o1: "objects s1 = objects s" using Pair by (rule get_uris_objects)
  show ?thesis
  proof (cases r1)
    case (Inl e)
    with assms Pair o1 show ?thesis
      by (simp add: unpublish_expired_restrictions_for_resource_def store_change_refl)
  next
    case (Inr us)
    with assms Pair have "sweep_loop (expired_note_step today xml_dates) us [] s1 = (r, s')"
      by (simp add: unpublish_expired_restrictions_for_resource_def)
    from sweep_loop_store_change[OF expired_step_spec expired_selects_published this] o1
    show ?thesis by simp
  qed
qed

lemma text_sweep_store_change:
  assumes "unpublish_restrictions_by_text repository resource_number (Some t) s = (r, s')"
  shows "store_change (text_matches t) (objects s) (objects s')"
proof (cases "truthy_str (Some t)")
  case False
  with assms show ?thesis
    by (simp add: unpublish_restrictions_by_text_def store_change_refl)
next
  case True
  show ?thesis
  proof (cases "get_resource_archival_object_uris repository resource_number s")
    case (Pair r1 s1)
    have o1: "objects s1 = objects s" using Pair by (rule get_uris_objects)
    show ?thesis
    proof (cases r1)
      case (Inl e)
      with assms Pair o1 True show ?thesis
        by (simp add: unpublish_restrictions_by_text_def store_change_refl)
    next
      case (Inr us)
      obtain r2 s2 where sl: "sweep_loop (text_note_step t) us [] s1 = (r2, s2)"
        by (cases "sweep_loop (text_note_step t) us [] s1")
      with assms Pair Inr True have "s' = s2"
        by (auto simp: unpublish_restrictions_by_text_def split: sum.splits)
      with sweep_loop_store_change[OF text_step_spec text_selects_published sl] o1
      show ?thesis by simp
    qed
  qed
qed

lemma str_less_irrefl: "\<not> str_less d d"
  by (induction d) auto

lemma sweep_loop_defaults:
  "sweep_loop step us l s = (r, s') \<Longrightarrow>
     extract_default s' = extract_default s \<and> find_default s' = find_default s"
proof (induction us arbitrary: l s)
  case Nil
  then show ?case by auto
next
  case (Cons u rest)
  show ?case
  proof (cases "objects s u")
    case None
    with Cons.prems show ?thesis by (auto simp: get_aspace_json_def)
  next
    case (Some ao)
    show ?thesis
    proof (cases "json_notes ao")
      case None
      with Some Cons.prems show ?thesis by (auto simp: get_aspace_json_def)
    next
      case ns: (Some ns)
      show ?thesis
      proof (cases "notes_loop (step u ao) ns False l")
        case (Inl e)
        with Some ns Cons.prems show ?thesis by (auto simp: get_aspace_json_def)
      next
        case (Inr res)
        then obtain ns' upd l1 where nl: "notes_loop (step u ao) ns False l = Inr (ns', upd, l1)"
          by (cases res) auto
        define s2 where "s2 = (if upd then session_post u (ao\<lparr>json_notes := Some ns'\<rparr>) (s\<lparr>trace := trace s @ [GET u]\<rparr>)
          else s\<lparr>trace := trace s @ [GET u]\<rparr>)"
        from Cons.prems Some ns nl have "sweep_loop step rest l1 s2 = (r, s')"
          by (simp add: get_aspace_json_def s2_def)
        from Cons.IH[OF this] show ?thesis by (simp add: s2_def session_post_def)
      qed
    qed
  qed
qed

lemma tree_children_unpublish_where: "tree_children (unpublish_where P j) = tree_children j"
  by (simp add: unpublish_where_def split: option.splits)

lemma get_uris_value:
  assumes "objects s (tree_uri repository resource_number) = Some tree" "tree_children tree = Some cs"
  shows "get_resource_archival_object_uris repository resource_number s =
     (Inr (extract_default s @ flatten_uris cs),
      s\<lparr>trace := trace s @ [GET (tree_uri repository resource_number)],
        extract_default := extract_default s @ flatten_uris cs\<rparr>)"
  using assms
  by (simp add: get_resource_archival_object_uris_def get_resource_tree_def get_aspace_json_def
      call_extract_archival_object_uris_from_children_def tree_uri_def extract_flatten Let_def)

lemma example_texts_differ:
  "past_text \<noteq> future_text" "past_text \<noteq> today_text" "future_text \<noteq> today_text"
  "future_text \<noteq> past_text" "today_text \<noteq> past_text" "today_text \<noteq> future_text"
  by (simp_all add: past_text_def future_text_def today_text_def)

lemma example_run:
  "fst (unpublish_expired_restrictions_for_resource ''/r'' ''2026-11-04'' example_xml_dates ''1''
          (initial_state dated_objects))
     = Inr [\<lparr>log_uri = ''/ao/1'', log_title = ''Box 1'', log_restriction = past_text\<rparr>]"
  by (simp add: unpublish_expired_restrictions_for_resource_def get_resource_archival_object_uris_def
      get_resource_tree_def get_aspace_json_def call_extract_archival_object_uris_from_children_def
      initial_state_def dated_objects_def example_xml_dates_def dated_note_def empty_json_def
      expired_note_step_def format_note_def session_post_def example_texts_differ Let_def)

section \<open>Restriction sweeps: the claims\<close>

text \<open>
  C5. Whenever the expiry sweep returns its log, the store it leaves is the one it found
  with, in every record of the tree (and of the uris left in the default list), exactly
  the notes unpublished that are of type \<open>accessrestrict\<close>, published, and whose first
  date element has a \<open>normal\<close> attribute that compares smaller than today, the comparison
  being the lexical one; a restriction dated today is not among them. The returned log has
  one entry, with uri, title and restriction text, per unpublished note, in the order of
  the visits, and the write-backs sent are one per record with such a note.
\<close>

theorem expiry_sweep_unpublishes_expired_notes:
  assumes "unpublish_expired_restrictions_for_resource repository today xml_dates resource_number s
             = (Inr unpublished_log, s')"
  shows "\<exists>tree cs.
     objects s (tree_uri repository resource_number) = Some tree
     \<and> tree_children tree = Some cs
     \<and> objects s' =
         store_after (expired today xml_dates) (extract_default s @ flatten_uris cs) (objects s)
     \<and> unpublished_log =
         sweep_log (expired today xml_dates) (objects s) (extract_default s @ flatten_uris cs)
     \<and> filter is_post (trace s') =
         filter is_post (trace s)
         @ sweep_posts (expired today xml_dates) (objects s) (extract_default s @ flatten_uris cs)
     \<and> (\<forall>n t ds. format_note n = Inr t \<longrightarrow> xml_dates t = Inr (Some today # ds)
            \<longrightarrow> \<not> expired today xml_dates n)"
proof -
  have equal_dated: "\<forall>n t ds. format_note n = Inr t \<longrightarrow> xml_dates t = Inr (Some today # ds)
            \<longrightarrow> \<not> expired today xml_dates n"
    by (simp add: expired_def str_less_irrefl)
  obtain r1 s1 where g: "get_resource_archival_object_uris repository resource_number s = (r1, s1)"
    by (cases "get_resource_archival_object_uris repository resource_number s")
  with assms obtain us where r1: "r1 = Inr us"
    and run: "sweep_loop (expired_note_step today xml_dates) us [] s1 = (Inr unpublished_log, s')"
    by (cases r1) (auto simp: unpublish_expired_restrictions_for_resource_def)
  from g r1 obtain tree cs where
    tree: "objects s (tree_uri repository resource_number) = Some tree" "tree_children tree = Some cs"
    and us: "us = extract_default s @ flatten_uris cs"
    and s1: "s1 = s\<lparr>trace := trace s @ [GET (tree_uri repository resource_number)], extract_default := us\<rparr>"
    by (auto elim: get_uris_result)
  from sweep_loop_spec[OF expired_step_spec expired_selects_published run]
  have "objects s' = store_after (expired today xml_dates) us (objects s1)"
    and "unpublished_log = sweep_log (expired today xml_dates) (objects s1) us"
    and "filter is_post (trace s') =
         filter is_post (trace s1) @ sweep_posts (expired today xml_dates) (objects s1) us"
    by simp_all
  with tree us s1 equal_dated show ?thesis by simp
qed

theorem expiry_sweep_witness:
  "unpublish_expired_restrictions_for_resource ''/r'' ''2026-11-04'' example_xml_dates ''1''
       (initial_state dated_objects)
     = (Inr [\<lparr>log_uri = ''/ao/1'', log_title = ''Box 1'', log_restriction = past_text\<rparr>],
        snd (unpublish_expired_restrictions_for_resource ''/r'' ''2026-11-04'' example_xml_dates
              ''1'' (initial_state dated_objects)))
   \<and> objects (snd (unpublish_expired_restrictions_for_resource ''/r'' ''2026-11-04''
                     example_xml_dates ''1'' (initial_state dated_objects))) ''/ao/1''
       = Some (empty_json\<lparr>uri := Some ''/ao/1'', display_string := Some ''Box 1'',
                 json_notes := Some [(dated_note past_text)\<lparr>publish := False\<rparr>]\<rparr>)
   \<and> objects (snd (unpublish_expired_restrictions_for_resource ''/r'' ''2026-11-04''
                     example_xml_dates ''1'' (initial_state dated_objects))) ''/ao/2''
       = dated_objects ''/ao/2''
   \<and> objects (snd (unpublish_expired_restrictions_for_resource ''/r'' ''2026-11-04''
                     example_xml_dates ''1'' (initial_state dated_objects))) ''/ao/3''
       = dated_objects ''/ao/3''
   \<and> filter is_post (trace (snd (unpublish_expired_restrictions_for_resource ''/r'' ''2026-11-04''
                     example_xml_dates ''1'' (initial_state dated_objects))))
       = [POST ''/ao/1'' (empty_json\<lparr>uri := Some ''/ao/1'', display_string := Some ''Box 1'',
                 json_notes := Some [(dated_note past_text)\<lparr>publish := False\<rparr>]\<rparr>)]
   \<and> \<not> expired ''2026-11-04'' example_xml_dates (dated_note today_text)"
proof -
  let ?s = "initial_state dated_objects"
  let ?run = "unpublish_expired_restrictions_for_resource ''/r'' ''2026-11-04'' example_xml_dates ''1'' ?s"
  let ?P = "expired ''2026-11-04'' example_xml_dates"
  have run: "?run = (Inr [\<lparr>log_uri = ''/ao/1'', log_title = ''Box 1'', log_restriction = past_text\<rparr>],
      snd ?run)"
    using example_run by (simp add: prod_eq_iff)
  have past: "?P (dated_note past_text)"
    by (simp add: expired_def dated_note_def format_note_def example_xml_dates_def)
  have future: "\<not> ?P (dated_note future_text)"
    by (simp add: expired_def dated_note_def format_note_def example_xml_dates_def
        example_texts_differ)
  have fmt: "format_note (dated_note today_text) = Inr today_text"
    by (simp add: dated_note_def format_note_def)
  have parse: "example_xml_dates today_text = Inr (Some ''2026-11-04'' # [])"
    by (simp add: example_xml_dates_def example_texts_differ)
  from expiry_sweep_unpublishes_expired_notes[OF run]
  obtain tree cs where tree: "objects ?s (tree_uri ''/r'' ''1'') = Some tree"
    and cs: "tree_children tree = Some cs"
    and objs: "objects (snd ?run) = store_after ?P (extract_default ?s @ flatten_uris cs) (objects ?s)"
    and posts: "filter is_post (trace (snd ?run)) =
         filter is_post (trace ?s) @ sweep_posts ?P (objects ?s) (extract_default ?s @ flatten_uris cs)"
    and equal_dated: "\<forall>n t ds. format_note n = Inr t \<longrightarrow>
         example_xml_dates t = Inr (Some ''2026-11-04'' # ds) \<longrightarrow> \<not> ?P n"
    by blast
  from equal_dated fmt parse have today: "\<not> ?P (dated_note today_text)" by blast
  from tree cs have cs_val: "cs = [TreeNode ''/ao/1'' False [] [], TreeNode ''/ao/2'' False [] [],
      TreeNode ''/ao/3'' False [] []]"
    by (auto simp: initial_state_def dated_objects_def tree_uri_def empty_json_def)
  have us: "extract_default ?s @ flatten_uris cs = [''/ao/1'', ''/ao/2'', ''/ao/3'']"
    by (simp add: cs_val initial_state_def)
  have a1: "objects (snd ?run) ''/ao/1''
       = Some (empty_json\<lparr>uri := Some ''/ao/1'', display_string := Some ''Box 1'',
                 json_notes := Some [(dated_note past_text)\<lparr>publish := False\<rparr>]\<rparr>)"
    unfolding objs us using past by (simp add: store_after_def initial_state_def dated_objects_def
        unpublish_where_def unpublish_if_def empty_json_def)
  have a2: "objects (snd ?run) ''/ao/2'' = dated_objects ''/ao/2''"
    unfolding objs us using future by (simp add: store_after_def initial_state_def dated_objects_def
        unpublish_where_def unpublish_if_def empty_json_def)
  have a3: "objects (snd ?run) ''/ao/3'' = dated_objects ''/ao/3''"
    unfolding objs us using today by (simp add: store_after_def initial_state_def dated_objects_def
        unpublish_where_def unpublish_if_def empty_json_def)
  have a4: "filter is_post (trace (snd ?run))
       = [POST ''/ao/1'' (empty_json\<lparr>uri := Some ''/ao/1'', display_string := Some ''Box 1'',
                 json_notes := Some [(dated_note past_text)\<lparr>publish := False\<rparr>]\<rparr>)]"
    unfolding posts us using past future today
    by (simp add: sweep_posts_def posts_at_def notes_of_def initial_state_def
        dated_objects_def unpublish_where_def unpublish_if_def empty_json_def)
  from run a1 a2 a3 a4 today show ?thesis by blast
qed

section \<open>Hierarchy resolver\<close>

lemma make_display_string_no_parent_title:
  "\<exists>t. make_display_string j False s = (Inr t, s)"
  by (simp add: make_display_string_def)

lemma loop_returns:
  "chain_ends objs j \<Longrightarrow> objects s = objs \<Longrightarrow> \<exists>r. build_hierarchy_loop j titles s = Some r"
proof (induction arbitrary: titles s rule: chain_ends.induct)
  case (no_parent j)
  then show ?case by (subst build_hierarchy_loop.simps) simp
next
  case (fetch_fails j p)
  then show ?case
    by (subst build_hierarchy_loop.simps) (simp add: get_aspace_json_def)
next
  case (step_up j p pj)
  obtain t where t: "make_display_string pj False (s\<lparr>trace := trace s @ [GET p]\<rparr>)
      = (Inr t, s\<lparr>trace := trace s @ [GET p]\<rparr>)"
    using make_display_string_no_parent_title by blast
  have "objects (s\<lparr>trace := trace s @ [GET p]\<rparr>) = objs" using step_up.prems by simp
  from step_up.IH[OF this, of "titles @ [t]"]
  obtain r where
    "build_hierarchy_loop pj (titles @ [t]) (s\<lparr>trace := trace s @ [GET p]\<rparr>) = Some r"
    by blast
  then show ?case using step_up.hyps step_up.prems t
    by (subst build_hierarchy_loop.simps) (simp add: get_aspace_json_def)
qed

lemma loop_returns_only_if:
  assumes "build_hierarchy_loop j0 titles0 s0 = Some r0"
  shows "chain_ends (objects s0) j0"
proof (rule build_hierarchy_loop.raw_induct
    [where P = "\<lambda>j titles s r. chain_ends (objects s) j", OF _ assms], goal_cases)
  case (1 loop j titles s r)
  show ?case
  proof (cases "parent j")
    case None
    then show ?thesis by (rule chain_ends.no_parent)
  next
    case (Some p)
    show ?thesis
    proof (cases "objects s p")
      case None
      with Some show ?thesis by (rule chain_ends.fetch_fails)
    next
      case (Some pj)
      obtain t where t: "make_display_string pj False (s\<lparr>trace := trace s @ [GET p]\<rparr>)
          = (Inr t, s\<lparr>trace := trace s @ [GET p]\<rparr>)"
        using make_display_string_no_parent_title by blast
      from 1(2) \<open>parent j = Some p\<close> Some t
      have "loop pj (titles @ [t]) (s\<lparr>trace := trace s @ [GET p]\<rparr>) = Some r"
        by (simp add: get_aspace_json_def)
      from 1(1)[OF this] have "chain_ends (objects s) pj" by simp
      with \<open>parent j = Some p\<close> Some show ?thesis by (rule chain_ends.step_up)
    qed
  qed
qed

lemma build_hierarchy_returns_iff:
  "(\<exists>r. build_hierarchy j delimiter s = Some r) \<longleftrightarrow> chain_ends (objects s) j"
proof
  assume "\<exists>r. build_hierarchy j delimiter s = Some r"
  then obtain r' where "build_hierarchy_loop j [] s = Some r'"
    by (auto simp: build_hierarchy_def split: option.splits)
  then show "chain_ends (objects s) j" by (rule loop_returns_only_if)
next
  assume "chain_ends (objects s) j"
  then obtain r where "build_hierarchy_loop j [] s = Some r"
    using loop_returns by blast
  then show "\<exists>r. build_hierarchy j delimiter s = Some r"
    by (auto simp: build_hierarchy_def split: option.splits prod.splits sum.splits)
qed

lemma self_parent_chain: "chain_ends [''/a'' \<mapsto> self_parent] j \<Longrightarrow> j \<noteq> self_parent"
  by (induction rule: chain_ends.induct)
     (auto simp: self_parent_def empty_json_def split: if_splits)

text \<open>
  C2, as stated, fails: the claim is that the resolver terminates on every parent chain and
  reports a cycle as \<open>CycleDetected\<close>. On a record that names itself as its parent, with
  the backend holding that record, the loop of \<^verbatim>\<open>build_hierarchy\<close> never ends: there is no
  result at all, neither a string nor an error.
\<close>

theorem build_hierarchy_cycle_never_returns:
  "build_hierarchy self_parent ''>'' (initial_state [''/a'' \<mapsto> self_parent]) = None"
proof (cases "build_hierarchy self_parent ''>'' (initial_state [''/a'' \<mapsto> self_parent])")
  case None
  then show ?thesis .
next
  case (Some r)
  then obtain r' where
    "build_hierarchy_loop self_parent [] (initial_state [''/a'' \<mapsto> self_parent]) = Some r'"
    by (auto simp: build_hierarchy_def split: option.splits)
  then have "chain_ends (objects (initial_state [''/a'' \<mapsto> self_parent])) self_parent"
    by (rule loop_returns_only_if)
  then have "chain_ends [''/a'' \<mapsto> self_parent] self_parent"
    by (simp add: initial_state_def)
  then show ?thesis using self_parent_chain by blast
qed

text \<open>
  C2, amended: \<^verbatim>\<open>build_hierarchy\<close> keeps no set of visited uris and has no
  \<open>CycleDetected\<close> condition; it returns (a string or an error) exactly when the parent chain
  of the record ends, that is when walking the parent references upward reaches, after
  finitely many fetches, a record without parent or a fetch that fails. On a chain that
  does not end, a cyclic one in particular, it does not terminate.
\<close>

theorem build_hierarchy_terminates_iff_chain_ends:
  "(\<exists>r. build_hierarchy j delimiter s = Some r) \<longleftrightarrow> chain_ends (objects s) j"
  by (rule build_hierarchy_returns_iff)

theorem build_hierarchy_chain_witness:
  "chain_ends (objects (initial_state [''/b'' \<mapsto> node_b, ''/c'' \<mapsto> node_c])) node_a
   \<and> (\<exists>r. build_hierarchy node_a ''>'' (initial_state [''/b'' \<mapsto> node_b, ''/c'' \<mapsto> node_c])
          = Some r)
   \<and> build_hierarchy node_a ''>'' (initial_state [''/b'' \<mapsto> node_b, ''/c'' \<mapsto> node_c])
       = Some (Inr ''C > B'',
           (initial_state [''/b'' \<mapsto> node_b, ''/c'' \<mapsto> node_c])
             \<lparr>trace := [GET ''/b'', GET ''/c'']\<rparr>)"
proof -
  have v: "build_hierarchy node_a ''>'' (initial_state [''/b'' \<mapsto> node_b, ''/c'' \<mapsto> node_c])
       = Some (Inr ''C > B'',
           (initial_state [''/b'' \<mapsto> node_b, ''/c'' \<mapsto> node_c])
             \<lparr>trace := [GET ''/b'', GET ''/c'']\<rparr>)"
    by (simp add: build_hierarchy_def build_hierarchy_loop.simps node_a_def node_b_def node_c_def
        empty_json_def initial_state_def get_aspace_json_def make_display_string_def truthy_str_def
        truthy_list_def sanitize_title_def strip_def isspace_def Let_def)
  then have "\<exists>r. build_hierarchy node_a ''>''
      (initial_state [''/b'' \<mapsto> node_b, ''/c'' \<mapsto> node_c]) = Some r"
    by blast
  with build_hierarchy_terminates_iff_chain_ends
      [of node_a "''>''" "initial_state [''/b'' \<mapsto> node_b, ''/c'' \<mapsto> node_c]"] v
  show ?thesis by blast
qed

section \<open>Container merge\<close>

lemma merge_loop_stops:
  "merge_loop source_uri target_uri (u # rest) s = (r, s') \<Longrightarrow>
     (\<exists>e. r = Inl e) \<and> s' = s\<lparr>trace := trace s @ [GET u]\<rparr>"
  by (auto simp: get_aspace_json_def update_aspace_object_def post_aspace_json_def
      split: option.splits sum.splits prod.splits if_splits)

lemma merge_loop_store:
  "merge_loop source_uri target_uri us s = (r, s') \<Longrightarrow>
     objects s' = objects s \<and> filter is_post (trace s') = filter is_post (trace s)
     \<and> filter is_delete (trace s') = filter is_delete (trace s)"
proof (cases us)
  case Nil
  assume "merge_loop source_uri target_uri us s = (r, s')"
  with Nil show ?thesis by auto
next
  case (Cons u rest)
  assume "merge_loop source_uri target_uri us s = (r, s')"
  with Cons merge_loop_stops[of source_uri target_uri u rest s r s'] show ?thesis by auto
qed

lemma merge_succeeds_only_without_references:
  assumes "merge_top_containers repository source_id target_id s = (Inr (), s')"
  shows "\<exists>metadata. objects s (repository @ ''/metadata_for_container/'' @ source_id) = Some metadata
     \<and> archival_objects metadata = Some []"
proof -
  from assms obtain metadata us where
    m: "objects s (repository @ ''/metadata_for_container/'' @ source_id) = Some metadata"
    "archival_objects metadata = Some us"
    by (auto simp: merge_top_containers_def get_metadata_for_container_def get_aspace_json_def
        split: option.splits sum.splits prod.splits)
  have "us = []"
  proof (cases us)
    case Nil
    then show ?thesis .
  next
    case (Cons u rest)
    obtain r1 s1 where ml: "merge_loop (repository @ ''/top_containers/'' @ source_id)
        (repository @ ''/top_containers/'' @ target_id) (u # rest)
        (s\<lparr>trace := trace s @ [GET (repository @ ''/metadata_for_container/'' @ source_id)]\<rparr>) = (r1, s1)"
      by (cases "merge_loop (repository @ ''/top_containers/'' @ source_id)
        (repository @ ''/top_containers/'' @ target_id) (u # rest)
        (s\<lparr>trace := trace s @ [GET (repository @ ''/metadata_for_container/'' @ source_id)]\<rparr>)")
    from merge_loop_stops[OF ml] obtain e where "r1 = Inl e" by blast
    with assms m Cons ml show ?thesis
      by (simp add: merge_top_containers_def get_metadata_for_container_def get_aspace_json_def)
  qed
  with m show ?thesis by simp
qed

lemma merge_never_posts:
  assumes "merge_top_containers repository source_id target_id s = (r, s')"
  shows "filter is_post (trace s') = filter is_post (trace s)
     \<and> (\<forall>u j. objects s' u = Some j \<longrightarrow> objects s u = Some j)"
proof (cases "objects s (repository @ ''/metadata_for_container/'' @ source_id)")
  case None
  with assms show ?thesis
    by (auto simp: merge_top_containers_def get_metadata_for_container_def get_aspace_json_def)
next
  case (Some metadata)
  show ?thesis
  proof (cases "archival_objects metadata")
    case None
    with Some assms show ?thesis
      by (auto simp: merge_top_containers_def get_metadata_for_container_def get_aspace_json_def)
  next
    case us: (Some us)
    let ?s1 = "s\<lparr>trace := trace s @ [GET (repository @ ''/metadata_for_container/'' @ source_id)]\<rparr>"
    obtain r1 s2 where ml: "merge_loop (repository @ ''/top_containers/'' @ source_id)
        (repository @ ''/top_containers/'' @ target_id) us ?s1 = (r1, s2)"
      by (cases "merge_loop (repository @ ''/top_containers/'' @ source_id)
        (repository @ ''/top_containers/'' @ target_id) us ?s1")
    from merge_loop_store[OF ml]
    have o2: "objects s2 = objects s" and p2: "filter is_post (trace s2) = filter is_post (trace s)"
      by simp_all
    show ?thesis
    proof (cases r1)
      case (Inl e)
      with assms Some us ml o2 p2 show ?thesis
        by (simp add: merge_top_containers_def get_metadata_for_container_def get_aspace_json_def)
    next
      case (Inr x)
      with assms Some us ml
      have "delete_aspace_object (repository @ ''/top_containers/'' @ source_id) s2 = (r, s')"
        by (simp add: merge_top_containers_def get_metadata_for_container_def get_aspace_json_def)
      with o2 p2 show ?thesis
        by (auto simp: delete_aspace_object_def split: option.splits if_splits)
    qed
  qed
qed

text \<open>
  C4. The claim is that the merge repoints every instance that references the source
  container, writes each record back and then deletes the source. Evaluated for containers
  1 (source) and 2 (target) and one archival object referencing container 1, the merge
  raises \<open>TypeError\<close> at the first write-back, after the two fetches: the store is as it
  was, no record is written and the source container is not deleted. With a digital object
  instance besides the container instance, it raises \<open>KeyError\<close> even before that.
\<close>

theorem merge_top_containers_fails_at_write_back:
  "merge_top_containers ''/r'' ''1'' ''2'' (initial_state merge_objects)
     = (Inl TypeError,
        (initial_state merge_objects)
          \<lparr>trace := [GET ''/r/metadata_for_container/1'', GET ''/ao/1'']\<rparr>)
   \<and> merge_top_containers ''/r'' ''1'' ''2'' (initial_state merge_objects_digital)
     = (Inl KeyError,
        (initial_state merge_objects_digital)
          \<lparr>trace := [GET ''/r/metadata_for_container/1'', GET ''/ao/1'']\<rparr>)"
  by (simp add: merge_top_containers_def get_metadata_for_container_def get_aspace_json_def
      update_aspace_object_def post_aspace_json_def initial_state_def merge_objects_def
      merge_objects_digital_def empty_json_def)

section \<open>Orphan association cleanup\<close>

lemma delete_single_result:
  assumes "delete_single_resource_instances u s = (r, s')"
  shows "(r = Inr () \<longrightarrow>
            trace s' = trace s @ cleanup_requests (objects s) u
            \<and> objects s' = (if deletable (objects s) u then (objects s)(u := None) else objects s))
       \<and> (r \<noteq> Inr () \<longrightarrow> objects s' = objects s \<and> (\<exists>t. trace s' = trace s @ t \<and> filter is_delete t = [] \<and> filter is_post t = []))
       \<and> extract_default s' = extract_default s \<and> find_default s' = find_default s"
  using assms
  by (auto simp: delete_single_resource_instances_def get_aspace_json_def delete_aspace_object_def
      cleanup_requests_def deletable_def
      split: option.splits sum.splits prod.splits if_splits)

lemma deletable_cong: "objs' v = objs v \<Longrightarrow> deletable objs' v = deletable objs v"
  by (simp add: deletable_def)

lemma cleanup_requests_cong:
  "objs' v = objs v \<Longrightarrow> cleanup_requests objs' v = cleanup_requests objs v"
  using deletable_cong[of objs' v objs] by (simp add: cleanup_requests_def)

lemma cleanup_requests_filters:
  "filter is_delete (cleanup_requests objs u) = (if deletable objs u then [DELETE u] else [])"
  "filter is_post (cleanup_requests objs u) = []"
  by (auto simp: cleanup_requests_def deletable_def split: option.splits)

lemma cleanup_trace_cong:
  "(\<And>v. v \<in> set us \<Longrightarrow> objs' v = objs v) \<Longrightarrow> cleanup_trace objs' us = cleanup_trace objs us"
  unfolding cleanup_trace_def
proof (induction us)
  case Nil
  then show ?case by simp
next
  case (Cons u us)
  from Cons.prems have "cleanup_requests objs' u = cleanup_requests objs u"
    by (simp add: cleanup_requests_cong[of objs' u objs])
  with Cons show ?case by simp
qed

lemma filter_deletable_cong:
  "(\<And>v. v \<in> set us \<Longrightarrow> objs' v = objs v) \<Longrightarrow>
     filter (deletable objs') us = filter (deletable objs) us"
proof (induction us)
  case Nil
  then show ?case by simp
next
  case (Cons u us)
  from Cons.prems have "deletable objs' u = deletable objs u"
    by (simp add: deletable_cong[of objs' u objs])
  with Cons show ?case by simp
qed

lemma delete_loop_result:
  assumes "distinct us" "delete_instances_loop us s = (r, s')"
  shows "\<exists>ds t. trace s' = trace s @ t \<and> filter is_post t = []
     \<and> filter is_delete t = map DELETE ds \<and> distinct ds \<and> set ds \<subseteq> set us
     \<and> (\<forall>u\<in>set ds. deletable (objects s) u)
     \<and> objects s' = without (objects s) ds
     \<and> (r = Inr () \<longrightarrow> t = cleanup_trace (objects s) us \<and> ds = filter (deletable (objects s)) us)"
  using assms
proof (induction us arbitrary: s)
  case Nil
  then have "s' = s" "r = Inr ()" by simp_all
  then have "trace s' = trace s @ [] \<and> filter is_post [] = []
     \<and> filter is_delete [] = map DELETE [] \<and> distinct ([]::string list) \<and> set [] \<subseteq> set ([]::string list)
     \<and> (\<forall>u\<in>set []. deletable (objects s) u)
     \<and> objects s' = without (objects s) []
     \<and> (r = Inr () \<longrightarrow> [] = cleanup_trace (objects s) [] \<and> [] = filter (deletable (objects s)) [])"
    by (auto simp: without_def cleanup_trace_def)
  then show ?case by blast
next
  case (Cons u rest)
  obtain r1 s1 where d: "delete_single_resource_instances u s = (r1, s1)"
    by (cases "delete_single_resource_instances u s")
  note single = delete_single_result[OF d]
  show ?case
  proof (cases "r1 = Inr ()")
    case False
    then obtain e where r1: "r1 = Inl e" by (cases r1) auto
    with Cons.prems(2) d have res: "r = Inl e" "s' = s1" by simp_all
    from single False obtain t where t: "trace s1 = trace s @ t" "filter is_delete t = []"
      "filter is_post t = []" and o: "objects s1 = objects s" by blast
    have "trace s' = trace s @ t \<and> filter is_post t = []
     \<and> filter is_delete t = map DELETE [] \<and> distinct ([]::string list) \<and> set [] \<subseteq> set (u # rest)
     \<and> (\<forall>u\<in>set []. deletable (objects s) u)
     \<and> objects s' = without (objects s) []
     \<and> (r = Inr () \<longrightarrow> t = cleanup_trace (objects s) (u # rest) \<and> [] = filter (deletable (objects s)) (u # rest))"
      using res t o by (auto simp: without_def)
    then show ?thesis by blast
  next
    case True
    with Cons.prems(2) d have run: "delete_instances_loop rest s1 = (r, s')" by simp
    from single True have t1: "trace s1 = trace s @ cleanup_requests (objects s) u"
      and o1: "objects s1 = (if deletable (objects s) u then (objects s)(u := None) else objects s)"
      by simp_all
    from Cons.prems(1) have dist: "distinct rest" and notin: "u \<notin> set rest" by simp_all
    have same: "objects s1 v = objects s v" if "v \<in> set rest" for v
      using that notin o1 by auto
    from Cons.IH[OF dist run] obtain ds t where
      tr: "trace s' = trace s1 @ t" and np: "filter is_post t = []"
      and dl: "filter is_delete t = map DELETE ds" and dd: "distinct ds" and sub: "set ds \<subseteq> set rest"
      and ok: "\<forall>v\<in>set ds. deletable (objects s1) v"
      and ob: "objects s' = without (objects s1) ds"
      and succ: "r = Inr () \<longrightarrow> t = cleanup_trace (objects s1) rest \<and> ds = filter (deletable (objects s1)) rest"
      by blast
    define ds0 where "ds0 = (if deletable (objects s) u then [u] else []) @ ds"
    define t0 where "t0 = cleanup_requests (objects s) u @ t"
    have a: "trace s' = trace s @ t0" using tr t1 by (simp add: t0_def)
    have b: "filter is_post t0 = []" using np by (simp add: t0_def cleanup_requests_filters)
    have c: "filter is_delete t0 = map DELETE ds0"
      using dl by (simp add: t0_def ds0_def cleanup_requests_filters)
    have d': "distinct ds0" using dd sub notin by (auto simp: ds0_def)
    have e: "set ds0 \<subseteq> set (u # rest)" using sub by (auto simp: ds0_def)
    have f: "\<forall>v\<in>set ds0. deletable (objects s) v"
    proof
      fix v assume "v \<in> set ds0"
      then consider "v = u" "deletable (objects s) u" | "v \<in> set ds"
        by (auto simp: ds0_def split: if_splits)
      then show "deletable (objects s) v"
      proof cases
        case 1
        then show ?thesis by simp
      next
        case 2
        with sub have "v \<in> set rest" by blast
        from same[OF this] have "deletable (objects s1) v = deletable (objects s) v"
          by (rule deletable_cong)
        with ok 2 show ?thesis by simp
      qed
    qed
    have g: "objects s' = without (objects s) ds0"
      by (rule ext) (auto simp: ob o1 without_def ds0_def)
    have h: "r = Inr () \<longrightarrow> t0 = cleanup_trace (objects s) (u # rest)
        \<and> ds0 = filter (deletable (objects s)) (u # rest)"
    proof
      assume "r = Inr ()"
      with succ have "t = cleanup_trace (objects s1) rest" "ds = filter (deletable (objects s1)) rest"
        by simp_all
      with cleanup_trace_cong[of rest "objects s1" "objects s", OF same]
        filter_deletable_cong[of rest "objects s1" "objects s", OF same]
      show "t0 = cleanup_trace (objects s) (u # rest)
        \<and> ds0 = filter (deletable (objects s)) (u # rest)"
        by (simp add: t0_def ds0_def cleanup_trace_def)
    qed
    from a b c d' e f g h show ?thesis by blast
  qed
qed

lemma find_instance_uris_result:
  assumes "find_instance_uris c None s = (r, s1)"
  shows "s1 = s\<lparr>trace := trace s @ [GET c]\<rparr>
     \<and> (\<forall>rs. r = Inr rs \<longrightarrow> rs = referenced_uris (objects s) [c])"
  using assms
  by (auto simp: find_instance_uris_def get_aspace_json_def referenced_uris_def truthy_str_def
      split: option.splits sum.splits)

lemma referenced_uris_Cons:
  "referenced_uris objs (c # cs) = referenced_uris objs [c] @ referenced_uris objs cs"
  by (simp add: referenced_uris_def)

lemma collect_result:
  "collect_instance_uris cs acc s = (r, s1) \<Longrightarrow>
     objects s1 = objects s \<and> extract_default s1 = extract_default s
     \<and> find_default s1 = find_default s
     \<and> (\<exists>t. trace s1 = trace s @ t \<and> filter is_post t = [] \<and> filter is_delete t = [])
     \<and> (\<forall>uris. r = Inr uris \<longrightarrow>
           uris = acc @ referenced_uris (objects s) cs \<and> trace s1 = trace s @ map GET cs)"
proof (induction cs arbitrary: acc s)
  case Nil
  then show ?case by (auto simp: referenced_uris_def)
next
  case (Cons c cs)
  obtain r0 s0 where f: "find_instance_uris c None s = (r0, s0)"
    by (cases "find_instance_uris c None s")
  from find_instance_uris_result[OF f]
  have s0: "s0 = s\<lparr>trace := trace s @ [GET c]\<rparr>"
    and r0: "\<And>rs. r0 = Inr rs \<Longrightarrow> rs = referenced_uris (objects s) [c]"
    by simp_all
  show ?case
  proof (cases r0)
    case (Inl e)
    with Cons.prems f have "r = Inl e" "s1 = s0" by simp_all
    with s0 show ?thesis by simp
  next
    case (Inr rs)
    with Cons.prems f have run: "collect_instance_uris cs (acc @ rs) s0 = (r, s1)" by simp
    from Cons.IH[OF run] s0 r0[OF Inr] show ?thesis
      by (auto simp: referenced_uris_Cons[of _ c cs])
  qed
qed

lemma without_nil: "without objs [] = objs"
  by (rule ext) (simp add: without_def)

lemma cleanup_result:
  assumes order: "\<And>xs. distinct (set_order xs) \<and> set (set_order xs) = set xs"
    and run: "remove_resource_associations set_order repository resource_number s = (r, s')"
  shows "\<exists>ds t. trace s' = trace s @ t \<and> filter is_post t = []
     \<and> filter is_delete t = map DELETE ds \<and> distinct ds
     \<and> (\<forall>u\<in>set ds. deletable (objects s) u)
     \<and> objects s' = without (objects s) ds
     \<and> (r = Inr () \<longrightarrow>
          (\<exists>tree cs us. objects s (tree_uri repository resource_number) = Some tree
             \<and> tree_children tree = Some cs
             \<and> us = set_order (referenced_uris (objects s) (find_default s @ filter_uris None cs))
             \<and> distinct us
             \<and> t = GET (tree_uri repository resource_number)
                   # map GET (find_default s @ filter_uris None cs) @ cleanup_trace (objects s) us
             \<and> ds = filter (deletable (objects s)) us))"
proof -
  let ?tu = "tree_uri repository resource_number"
  have nothing: ?thesis if "objects s' = objects s" "trace s' = trace s @ t"
    "filter is_post t = []" "filter is_delete t = []" "r \<noteq> Inr ()" for t
  proof -
    from that have "trace s' = trace s @ t \<and> filter is_post t = []
     \<and> filter is_delete t = map DELETE [] \<and> distinct ([]::string list)
     \<and> (\<forall>u\<in>set []. deletable (objects s) u)
     \<and> objects s' = without (objects s) []"
      by (auto simp: without_def)
    with that(5) show ?thesis by blast
  qed
  show ?thesis
  proof (cases "objects s ?tu")
    case None
    with run have "r = Inl CommunicationError" "s' = s\<lparr>trace := trace s @ [GET ?tu]\<rparr>"
      by (simp_all add: remove_resource_associations_def get_resource_tree_def get_aspace_json_def
          tree_uri_def)
    with nothing[of "[GET ?tu]"] show ?thesis by (simp add: without_nil)
  next
    case (Some tree)
    show ?thesis
    proof (cases "tree_children tree")
      case None
      with Some run have "r = Inl KeyError" "s' = s\<lparr>trace := trace s @ [GET ?tu]\<rparr>"
        by (simp_all add: remove_resource_associations_def get_resource_tree_def get_aspace_json_def
            tree_uri_def)
      with nothing[of "[GET ?tu]"] show ?thesis by (simp add: without_nil)
    next
      case cs: (Some cs)
      define cwi where "cwi = find_default s @ filter_uris None cs"
      define s2 where "s2 = s\<lparr>trace := trace s @ [GET ?tu], find_default := cwi\<rparr>"
      obtain r3 s3 where col: "collect_instance_uris cwi [] s2 = (r3, s3)"
        by (cases "collect_instance_uris cwi [] s2")
      have unfold: "remove_resource_associations set_order repository resource_number s =
          (case r3 of Inl e \<Rightarrow> (Inl e, s3)
           | Inr instance_uris \<Rightarrow> delete_instances_loop (set_order instance_uris) s3)"
        using Some cs col
        by (simp add: remove_resource_associations_def get_resource_tree_def get_aspace_json_def
            tree_uri_def call_find_children_with_instances_def find_filter Let_def cwi_def s2_def)
      from collect_result[OF col] obtain t3 where
        o3: "objects s3 = objects s" and t3: "trace s3 = trace s2 @ t3"
        and p3: "filter is_post t3 = []" and d3: "filter is_delete t3 = []"
        and ok3: "\<And>uris. r3 = Inr uris \<Longrightarrow>
           uris = referenced_uris (objects s) cwi \<and> trace s3 = trace s2 @ map GET cwi"
        by (auto simp: s2_def)
      show ?thesis
      proof (cases r3)
        case (Inl e)
        with run unfold have "r = Inl e" "s' = s3" by simp_all
        with o3 t3 p3 d3 nothing[of "GET ?tu # t3"] show ?thesis
          by (simp add: s2_def without_nil)
      next
        case (Inr uris)
        define us where "us = set_order uris"
        from ok3[OF Inr] have uris: "uris = referenced_uris (objects s) cwi"
          and tr3: "trace s3 = trace s2 @ map GET cwi" by simp_all
        have dist: "distinct us" using order by (simp add: us_def)
        from run unfold Inr have loop: "delete_instances_loop us s3 = (r, s')"
          by (simp add: us_def)
        from delete_loop_result[OF dist loop] o3 obtain ds t where
          a: "trace s' = trace s3 @ t" and b: "filter is_post t = []"
          and c: "filter is_delete t = map DELETE ds" and d: "distinct ds"
          and e: "\<forall>u\<in>set ds. deletable (objects s) u"
          and f: "objects s' = without (objects s) ds"
          and g: "r = Inr () \<longrightarrow> t = cleanup_trace (objects s) us \<and> ds = filter (deletable (objects s)) us"
          by auto
        define t0 where "t0 = GET ?tu # map GET cwi @ t"
        have a0: "trace s' = trace s @ t0" using a tr3 by (simp add: t0_def s2_def)
        have b0: "filter is_post t0 = []" using b by (simp add: t0_def filter_empty_conv)
        have c0: "filter is_delete t0 = map DELETE ds" using c by (simp add: t0_def filter_empty_conv)
        have g0: "r = Inr () \<longrightarrow>
          (\<exists>tree cs us. objects s ?tu = Some tree
             \<and> tree_children tree = Some cs
             \<and> us = set_order (referenced_uris (objects s) (find_default s @ filter_uris None cs))
             \<and> distinct us
             \<and> t0 = GET ?tu # map GET (find_default s @ filter_uris None cs) @ cleanup_trace (objects s) us
             \<and> ds = filter (deletable (objects s)) us)"
          using g Some cs dist uris by (auto simp: t0_def us_def cwi_def)
        from a0 b0 c0 d e f g0 show ?thesis by blast
      qed
    qed
  qed
qed

text \<open>
  C9. Whatever the outcome of the orphan cleanup, the objects it deletes are distinct
  referenced objects that were not shared when it started (a digital object with one linked
  instance, a top container in one collection); nothing is written, and the store it leaves
  is the one it found without the deleted objects, every other object being as it was. When
  it returns normally, the referenced uris were handed to the deletion loop each once, and
  the requests it sent are the fetch of the tree, one fetch per selected node and, per
  referenced object, one fetch followed by a delete exactly when the object was not shared.
\<close>

theorem cleanup_deletes_only_unshared:
  assumes order: "\<And>xs. distinct (set_order xs) \<and> set (set_order xs) = set xs"
    and run: "remove_resource_associations set_order repository resource_number s = (r, s')"
  shows "\<exists>ds t. trace s' = trace s @ t \<and> filter is_post t = []
     \<and> filter is_delete t = map DELETE ds \<and> distinct ds
     \<and> (\<forall>u\<in>set ds. deletable (objects s) u)
     \<and> objects s' = without (objects s) ds
     \<and> (r = Inr () \<longrightarrow>
          (\<exists>tree cs us. objects s (tree_uri repository resource_number) = Some tree
             \<and> tree_children tree = Some cs
             \<and> us = set_order (referenced_uris (objects s) (find_default s @ filter_uris None cs))
             \<and> distinct us
             \<and> t = GET (tree_uri repository resource_number)
                   # map GET (find_default s @ filter_uris None cs) @ cleanup_trace (objects s) us
             \<and> ds = filter (deletable (objects s)) us))"
  using order run by (rule cleanup_result)

lemma cleanup_example:
  "fst (remove_resource_associations remdups ''/r'' ''1'' (initial_state cleanup_objects)) = Inr ()"
  by (simp add: remove_resource_associations_def get_resource_tree_def get_aspace_json_def
      call_find_children_with_instances_def truthy_str_def find_instance_uris_def
      delete_single_resource_instances_def delete_aspace_object_def
      initial_state_def cleanup_objects_def empty_json_def Let_def)

theorem cleanup_witness:
  "fst (remove_resource_associations remdups ''/r'' ''1'' (initial_state cleanup_objects)) = Inr ()
   \<and> filter is_delete
        (trace (snd (remove_resource_associations remdups ''/r'' ''1'' (initial_state cleanup_objects))))
       = [DELETE ''/r/top_containers/5'']
   \<and> objects (snd (remove_resource_associations remdups ''/r'' ''1'' (initial_state cleanup_objects)))
        ''/r/top_containers/5'' = None
   \<and> objects (snd (remove_resource_associations remdups ''/r'' ''1'' (initial_state cleanup_objects)))
        ''/r/digital_objects/7'' = cleanup_objects ''/r/digital_objects/7''"
proof -
  let ?s = "initial_state cleanup_objects"
  let ?run = "remove_resource_associations remdups ''/r'' ''1'' ?s"
  have order: "\<And>xs::string list. distinct (remdups xs) \<and> set (remdups xs) = set xs" by simp
  have run: "?run = (Inr (), snd ?run)"
    using cleanup_example by (simp add: prod_eq_iff)
  from cleanup_deletes_only_unshared[of remdups, OF order run]
  obtain ds t where tr: "trace (snd ?run) = trace ?s @ t"
    and dl: "filter is_delete t = map DELETE ds"
    and ob: "objects (snd ?run) = without (objects ?s) ds"
    and ok: "\<exists>tree cs us. objects ?s (tree_uri ''/r'' ''1'') = Some tree
             \<and> tree_children tree = Some cs
             \<and> us = remdups (referenced_uris (objects ?s) (find_default ?s @ filter_uris None cs))
             \<and> distinct us
             \<and> t = GET (tree_uri ''/r'' ''1'')
                   # map GET (find_default ?s @ filter_uris None cs) @ cleanup_trace (objects ?s) us
             \<and> ds = filter (deletable (objects ?s)) us"
    by blast
  from ok obtain tree cs us where
    tree: "objects ?s (tree_uri ''/r'' ''1'') = Some tree" "tree_children tree = Some cs"
    and us: "us = remdups (referenced_uris (objects ?s) (find_default ?s @ filter_uris None cs))"
    and ds: "ds = filter (deletable (objects ?s)) us"
    by blast
  from tree have cs_val: "cs = [TreeNode ''/ao/1'' False [''box''] [], TreeNode ''/ao/2'' False [''box''] []]"
    by (auto simp: initial_state_def cleanup_objects_def tree_uri_def empty_json_def)
  have us_val: "us = [''/r/digital_objects/7'', ''/r/top_containers/5'']"
    unfolding us cs_val
    by (simp add: initial_state_def cleanup_objects_def referenced_uris_def node_selected_def
        truthy_str_def empty_json_def)
  have ds_val: "ds = [''/r/top_containers/5'']"
    unfolding ds us_val
    by (simp add: initial_state_def cleanup_objects_def deletable_def empty_json_def)
  have a: "filter is_delete (trace (snd ?run)) = [DELETE ''/r/top_containers/5'']"
    unfolding tr using dl ds_val by (simp add: initial_state_def)
  have b: "objects (snd ?run) ''/r/top_containers/5'' = None"
    unfolding ob ds_val by (simp add: without_def)
  have c: "objects (snd ?run) ''/r/digital_objects/7'' = cleanup_objects ''/r/digital_objects/7''"
    unfolding ob ds_val by (simp add: without_def initial_state_def)
  from cleanup_example a b c show ?thesis by blast
qed

section \<open>Restriction sweeps: idempotence, missing text and partiality\<close>

lemma store_change_mono:
  assumes "store_change P a b" and imp: "\<And>n. P n \<Longrightarrow> Q n"
  shows "store_change Q a b"
  unfolding store_change_def
proof
  fix u
  have nc: "note_change Q n n'" if "note_change P n n'" for n n'
    using that imp by (auto simp: note_change_def)
  have rc: "record_change Q x y" if "record_change P x y" for x y
    using that nc unfolding record_change_def
    by (auto elim: list_all2_mono)
  from store_change_at[OF assms(1), of u]
  show "case a u of None \<Rightarrow> b u = None
        | Some ao \<Rightarrow> (case b u of None \<Rightarrow> False | Some ao' \<Rightarrow> record_change Q ao ao')"
    using rc by (auto split: option.splits)
qed

lemma cleanup_keeps_records:
  assumes "\<forall>xs. distinct (set_order xs) \<and> set (set_order xs) = set xs"
    and "remove_resource_associations set_order repository resource_number s = (r, s')"
  shows "\<forall>u j. objects s' u = Some j \<longrightarrow> objects s u = Some j"
proof -
  from assms(1) have order: "\<And>xs. distinct (set_order xs) \<and> set (set_order xs) = set xs"
    by blast
  from cleanup_result[of set_order, OF order assms(2)]
  obtain ds where "objects s' = without (objects s) ds" by blast
  then show ?thesis by (simp add: without_def split: if_splits)
qed

text \<open>
  C7. If the text-match sweep returns its log, a second run with the same resource and the
  same text, started in the state the first run left, returns the empty log and leaves the
  store as it is. Moreover, in whatever way a run of either sweep ends, every record is
  still there and differs from what it was at most in that notes which were published are
  now unpublished; the container merge and the orphan cleanup change no record that they
  leave in the store.
\<close>

theorem text_sweep_idempotent:
  assumes run1: "unpublish_restrictions_by_text repository resource_number (Some t) s = (Inr (Log l1), s1)"
  shows "(\<exists>s2. unpublish_restrictions_by_text repository resource_number (Some t) s1 = (Inr (Log []), s2)
            \<and> objects s2 = objects s1)
     \<and> store_change publish (objects s) (objects s1)
     \<and> (\<forall>rt r s'. unpublish_restrictions_by_text repository resource_number rt s = (r, s')
            \<longrightarrow> store_change publish (objects s) (objects s'))
     \<and> (\<forall>today xml_dates r s'.
            unpublish_expired_restrictions_for_resource repository today xml_dates resource_number s = (r, s')
            \<longrightarrow> store_change publish (objects s) (objects s'))
     \<and> (\<forall>source_id target_id r s'. merge_top_containers repository source_id target_id s = (r, s')
            \<longrightarrow> (\<forall>u j. objects s' u = Some j \<longrightarrow> objects s u = Some j))
     \<and> (\<forall>set_order r s'. (\<forall>xs. distinct (set_order xs) \<and> set (set_order xs) = set xs)
            \<longrightarrow> remove_resource_associations set_order repository resource_number s = (r, s')
            \<longrightarrow> (\<forall>u j. objects s' u = Some j \<longrightarrow> objects s u = Some j))"
proof -
  let ?P = "text_matches t"
  let ?step = "text_note_step t"
  from run1 have truthy: "truthy_str (Some t)"
    by (auto simp: unpublish_restrictions_by_text_def split: if_splits)
  obtain r0 s0 where g: "get_resource_archival_object_uris repository resource_number s = (r0, s0)"
    by (cases "get_resource_archival_object_uris repository resource_number s")
  with run1 truthy obtain us where r0: "r0 = Inr us"
    and loop1: "sweep_loop ?step us [] s0 = (Inr l1, s1)"
    by (cases r0) (auto simp: unpublish_restrictions_by_text_def split: sum.splits prod.splits)
  from g r0 obtain tree cs where
    tree: "objects s (tree_uri repository resource_number) = Some tree" "tree_children tree = Some cs"
    and us: "us = extract_default s @ flatten_uris cs"
    and s0: "s0 = s\<lparr>trace := trace s @ [GET (tree_uri repository resource_number)], extract_default := us\<rparr>"
    by (auto elim: get_uris_result)
  have o0: "objects s0 = objects s" using s0 by simp
  from sweep_loop_spec[OF text_step_spec text_selects_published loop1] o0
  have o1: "objects s1 = store_after ?P us (objects s)" by simp
  from sweep_loop_defaults[OF loop1] s0 have d1: "extract_default s1 = us" by simp
  have "\<exists>tree1. objects s1 (tree_uri repository resource_number) = Some tree1
      \<and> tree_children tree1 = Some cs"
    using o1 tree by (simp add: store_after_def tree_children_unpublish_where)
  then obtain tree1 where tree1: "objects s1 (tree_uri repository resource_number) = Some tree1"
    "tree_children tree1 = Some cs" by blast
  define us2 where "us2 = us @ flatten_uris cs"
  define s1' where "s1' = s1\<lparr>trace := trace s1 @ [GET (tree_uri repository resource_number)],
        extract_default := us2\<rparr>"
  have g2: "get_resource_archival_object_uris repository resource_number s1 = (Inr us2, s1')"
    using get_uris_value[OF tree1] d1 by (simp add: us2_def s1'_def)
  have sub: "set us2 \<subseteq> set us" using us by (auto simp: us2_def)
  have clean: "\<exists>ao ns. objects s1' u = Some ao \<and> json_notes ao = Some ns
       \<and> (\<forall>n\<in>set ns. ?step u ao n = Inr (n, None))" if "u \<in> set us2" for u
  proof -
    from that sub have "u \<in> set us" by blast
    from sweep_loop_steps_succeed[OF text_step_spec loop1 this] o0
    obtain ao ns where ao: "objects s u = Some ao" "json_notes ao = Some ns"
      and steps: "\<And>n. n \<in> set ns \<Longrightarrow> \<exists>n' e. ?step u ao n = Inr (n', e)"
      by auto
    have a1: "objects s1' u = Some (unpublish_where ?P ao)"
      using o1 ao \<open>u \<in> set us\<close> by (simp add: s1'_def store_after_def)
    have a2: "json_notes (unpublish_where ?P ao) = Some (map (unpublish_if ?P) ns)"
      using ao by (simp add: unpublish_where_def)
    have "?step u (unpublish_where ?P ao) m = Inr (m, None)"
      if "m \<in> set (map (unpublish_if ?P) ns)" for m
    proof -
      from that obtain n where n: "n \<in> set ns" and m: "m = unpublish_if ?P n" by auto
      from steps[OF n] obtain n' e where st: "?step u ao n = Inr (n', e)" by blast
      with text_step_spec have "n' = m" using m by (simp add: step_spec_def)
      with text_step_stable[OF st] show ?thesis by simp
    qed
    with a1 a2 show ?thesis by blast
  qed
  have loop2: "sweep_loop ?step us2 [] s1' = (Inr [], s1'\<lparr>trace := trace s1' @ map GET us2\<rparr>)"
    by (rule sweep_loop_clean) (use clean in blast)
  have "unpublish_restrictions_by_text repository resource_number (Some t) s1
      = (Inr (Log []), s1'\<lparr>trace := trace s1' @ map GET us2\<rparr>)"
    using truthy g2 loop2 by (simp add: unpublish_restrictions_by_text_def)
  moreover have "objects (s1'\<lparr>trace := trace s1' @ map GET us2\<rparr>) = objects s1"
    by (simp add: s1'_def)
  ultimately have second: "\<exists>s2. unpublish_restrictions_by_text repository resource_number (Some t) s1
       = (Inr (Log []), s2) \<and> objects s2 = objects s1"
    by blast
  have text_any: "store_change publish (objects s) (objects s')"
    if "unpublish_restrictions_by_text repository resource_number rt s = (r, s')" for rt r s'
  proof (cases rt)
    case None
    with that show ?thesis
      by (simp add: unpublish_restrictions_by_text_def truthy_str_def store_change_refl)
  next
    case (Some t')
    with that have "store_change (text_matches t') (objects s) (objects s')"
      using text_sweep_store_change by simp
    then show ?thesis
      by (rule store_change_mono) (simp add: text_matches_def)
  qed
  have expiry_any: "store_change publish (objects s) (objects s')"
    if "unpublish_expired_restrictions_for_resource repository today xml_dates resource_number s = (r, s')"
    for today xml_dates r s'
  proof -
    from that have "store_change (expired today xml_dates) (objects s) (objects s')"
      by (rule expiry_sweep_store_change)
    then show ?thesis
      by (rule store_change_mono) (simp add: expired_def)
  qed
  have merge_any: "\<forall>u j. objects s' u = Some j \<longrightarrow> objects s u = Some j"
    if "merge_top_containers repository source_id target_id s = (r, s')" for source_id target_id r s'
    using merge_never_posts[OF that] by simp
  have cleanup_any: "\<forall>u j. objects s' u = Some j \<longrightarrow> objects s u = Some j"
    if "\<forall>xs. distinct (set_order xs) \<and> set (set_order xs) = set xs"
      "remove_resource_associations set_order repository resource_number s = (r, s')"
    for set_order r s'
    using cleanup_keeps_records[OF that] by simp
  from second text_any[OF run1] text_any expiry_any merge_any cleanup_any
  show ?thesis by blast
qed

lemma text_example_run:
  "fst (unpublish_restrictions_by_text ''/r'' ''1'' (Some ''old'') (initial_state example_objects))
     = Inr (Log [\<lparr>log_uri = ''/ao/1'', log_title = ''Box 1'', log_restriction = ''old''\<rparr>])"
  by (simp add: unpublish_restrictions_by_text_def get_resource_archival_object_uris_def
      get_resource_tree_def get_aspace_json_def call_extract_archival_object_uris_from_children_def
      initial_state_def example_objects_def old_note_def new_note_def empty_json_def
      text_note_step_def format_note_def session_post_def truthy_str_def Let_def)

theorem text_sweep_idempotent_witness:
  "fst (unpublish_restrictions_by_text ''/r'' ''1'' (Some ''old'') (initial_state example_objects))
     = Inr (Log [\<lparr>log_uri = ''/ao/1'', log_title = ''Box 1'', log_restriction = ''old''\<rparr>])
   \<and> (\<exists>s2. unpublish_restrictions_by_text ''/r'' ''1'' (Some ''old'')
              (snd (unpublish_restrictions_by_text ''/r'' ''1'' (Some ''old'')
                      (initial_state example_objects)))
            = (Inr (Log []), s2)
          \<and> objects s2 = objects (snd (unpublish_restrictions_by_text ''/r'' ''1'' (Some ''old'')
                      (initial_state example_objects))))
   \<and> store_change publish (objects (initial_state example_objects))
        (objects (snd (unpublish_restrictions_by_text ''/r'' ''1'' (Some ''old'')
                      (initial_state example_objects))))"
proof -
  let ?run = "unpublish_restrictions_by_text ''/r'' ''1'' (Some ''old'') (initial_state example_objects)"
  have run: "?run = (Inr (Log [\<lparr>log_uri = ''/ao/1'', log_title = ''Box 1'', log_restriction = ''old''\<rparr>]),
      snd ?run)"
    using text_example_run by (simp add: prod_eq_iff)
  from text_sweep_idempotent[OF run] text_example_run show ?thesis by blast
qed

text \<open>
  C8. Called without a restriction text (the default, or the empty string), the text-match
  sweep returns the message that no text was provided and leaves the state as it is: no
  request is sent. Called with a text, in whatever way the run ends, the only notes it
  changes are published notes of type \<open>accessrestrict\<close> whose formatted text is equal to the
  given text, which it unpublishes.
\<close>

theorem text_sweep_needs_text:
  "(\<not> truthy_str restriction_text \<longrightarrow>
      unpublish_restrictions_by_text repository resource_number restriction_text s
        = (Inr (Message ''No restriction text provided''), s))
   \<and> (unpublish_restrictions_by_text repository resource_number (Some t) s = (r, s') \<longrightarrow>
        store_change (text_matches t) (objects s) (objects s'))"
  using text_sweep_store_change by (simp add: unpublish_restrictions_by_text_def)

theorem text_sweep_needs_text_witness:
  "unpublish_restrictions_by_text ''/r'' ''1'' None (initial_state example_objects)
     = (Inr (Message ''No restriction text provided''), initial_state example_objects)
   \<and> unpublish_restrictions_by_text ''/r'' ''1'' (Some []) (initial_state example_objects)
     = (Inr (Message ''No restriction text provided''), initial_state example_objects)
   \<and> store_change (text_matches ''old'') (objects (initial_state example_objects))
        (objects (snd (unpublish_restrictions_by_text ''/r'' ''1'' (Some ''old'')
                      (initial_state example_objects))))"
proof -
  let ?s = "initial_state example_objects"
  have a: "\<not> truthy_str None" "\<not> truthy_str (Some [])" by (simp_all add: truthy_str_def)
  have b: "unpublish_restrictions_by_text ''/r'' ''1'' (Some ''old'') ?s
       = (fst (unpublish_restrictions_by_text ''/r'' ''1'' (Some ''old'') ?s),
          snd (unpublish_restrictions_by_text ''/r'' ''1'' (Some ''old'') ?s))"
    by simp
  from text_sweep_needs_text[where restriction_text = None and repository = "''/r''"
      and resource_number = "''1''" and s = ?s] a(1)
  have 1: "unpublish_restrictions_by_text ''/r'' ''1'' None ?s
     = (Inr (Message ''No restriction text provided''), ?s)" by blast
  from text_sweep_needs_text[where restriction_text = "Some []" and repository = "''/r''"
      and resource_number = "''1''" and s = ?s] a(2)
  have 2: "unpublish_restrictions_by_text ''/r'' ''1'' (Some []) ?s
     = (Inr (Message ''No restriction text provided''), ?s)" by blast
  from text_sweep_needs_text[where repository = "''/r''" and resource_number = "''1''"
      and t = "''old''" and s = ?s] b
  have 3: "store_change (text_matches ''old'') (objects ?s)
        (objects (snd (unpublish_restrictions_by_text ''/r'' ''1'' (Some ''old'') ?s)))" by blast
  from 1 2 3 show ?thesis by blast
qed

lemma format_note_value:
  "format_note n = Inr v \<Longrightarrow>
     (jsonmodel_type n = ''note_singlepart'' \<and> (\<exists>cs. content n = Some (v # cs)))
     \<or> (jsonmodel_type n \<noteq> ''note_singlepart''
         \<and> (\<exists>sns. subnotes n = Some (Subnote (Some v) # sns)))"
proof -
  have sn: "sn = Subnote (Some v)" if "subnote_content sn = Some v" for sn
    using that by (cases sn) simp
  assume "format_note n = Inr v"
  then show ?thesis
    by (auto simp: format_note_def sn split: if_splits option.splits list.splits)
qed

lemma format_note_empty:
  "(jsonmodel_type n = ''note_singlepart'' \<and> content n = Some [])
     \<or> (jsonmodel_type n \<noteq> ''note_singlepart'' \<and> subnotes n = Some [])
   \<Longrightarrow> format_note n = Inl IndexError"
  by (auto simp: format_note_def)

lemma steps_raise_format_error:
  assumes "note_type n = Some ''accessrestrict''" "publish n" "format_note n = Inl e"
  shows "expired_note_step today xml_dates u ao n = Inl e" "text_note_step t u ao n = Inl e"
  using assms by (simp_all add: expired_note_step_def text_note_step_def)

lemma sweep_loop_note_fails:
  assumes "objects s u = Some ao" "json_notes ao = Some (pre @ n # post)"
    "notes_loop (step u ao) pre False l = Inr r0" "step u ao n = Inl e"
  shows "sweep_loop step (u # rest) l s = (Inl e, s\<lparr>trace := trace s @ [GET u]\<rparr>)"
  using assms(1,2) notes_loop_fails[OF assms(3,4), of post]
  by (simp add: get_aspace_json_def)

lemma sweep_loop_formats:
  assumes spec: "step_spec step P"
    and raise: "\<And>u ao n. note_type n = Some ''accessrestrict'' \<Longrightarrow> publish n \<Longrightarrow>
        (\<exists>e. format_note n = Inl e) \<Longrightarrow> \<exists>e. step u ao n = Inl e"
    and g: "get_resource_archival_object_uris repository resource_number s = (Inr us, s1)"
    and run: "sweep_loop step us l s1 = (Inr l', s')"
  shows "visited_notes_format repository resource_number s"
  unfolding visited_notes_format_def
proof (intro allI impI)
  fix tree cs u ao n
  assume a: "objects s (tree_uri repository resource_number) = Some tree \<and> tree_children tree = Some cs
        \<and> u \<in> set (extract_default s @ flatten_uris cs) \<and> objects s u = Some ao
        \<and> n \<in> set (notes_of ao) \<and> note_type n = Some ''accessrestrict'' \<and> publish n"
  from g obtain tree' cs' where
    "objects s (tree_uri repository resource_number) = Some tree'" "tree_children tree' = Some cs'"
    and us: "us = extract_default s @ flatten_uris cs'"
    and s1: "s1 = s\<lparr>trace := trace s @ [GET (tree_uri repository resource_number)], extract_default := us\<rparr>"
    by (auto elim: get_uris_result)
  with a have "u \<in> set us" by auto
  from sweep_loop_steps_succeed[OF spec run this] s1 a
  obtain ns where ns: "json_notes ao = Some ns"
    and ok: "\<forall>m\<in>set ns. \<exists>n' e. step u ao m = Inr (n', e)"
    by auto
  from a ns have "n \<in> set ns" by (simp add: notes_of_def)
  with ok obtain n' e where st: "step u ao n = Inr (n', e)" by blast
  show "\<exists>v. format_note n = Inr v"
  proof (cases "format_note n")
    case (Inl e')
    with raise[of n u ao] a st show ?thesis by auto
  next
    case (Inr v)
    then show ?thesis by blast
  qed
qed

lemma expiry_sweep_formats:
  assumes "unpublish_expired_restrictions_for_resource repository today xml_dates resource_number s
             = (Inr l, s')"
  shows "visited_notes_format repository resource_number s"
proof -
  obtain r1 s1 where g: "get_resource_archival_object_uris repository resource_number s = (r1, s1)"
    by (cases "get_resource_archival_object_uris repository resource_number s")
  with assms obtain us where r1: "r1 = Inr us"
    and run: "sweep_loop (expired_note_step today xml_dates) us [] s1 = (Inr l, s')"
    by (cases r1) (auto simp: unpublish_expired_restrictions_for_resource_def)
  show ?thesis
  proof (rule sweep_loop_formats[OF expired_step_spec _ g[unfolded r1] run])
    fix u ao n
    assume "note_type n = Some ''accessrestrict''" "publish n" "\<exists>e. format_note n = Inl e"
    then show "\<exists>e. expired_note_step today xml_dates u ao n = Inl e"
      using steps_raise_format_error(1) by blast
  qed
qed

lemma text_sweep_formats:
  assumes "unpublish_restrictions_by_text repository resource_number (Some t) s = (Inr (Log l), s')"
  shows "visited_notes_format repository resource_number s"
proof -
  from assms have truthy: "truthy_str (Some t)"
    by (auto simp: unpublish_restrictions_by_text_def split: if_splits)
  obtain r1 s1 where g: "get_resource_archival_object_uris repository resource_number s = (r1, s1)"
    by (cases "get_resource_archival_object_uris repository resource_number s")
  with assms truthy obtain us where r1: "r1 = Inr us"
    and run: "sweep_loop (text_note_step t) us [] s1 = (Inr l, s')"
    by (cases r1) (auto simp: unpublish_restrictions_by_text_def split: sum.splits prod.splits)
  show ?thesis
  proof (rule sweep_loop_formats[OF text_step_spec _ g[unfolded r1] run])
    fix u ao n
    assume "note_type n = Some ''accessrestrict''" "publish n" "\<exists>e. format_note n = Inl e"
    then show "\<exists>e. text_note_step t u ao n = Inl e"
      using steps_raise_format_error(2) by blast
  qed
qed

text \<open>
  C10. \<^verbatim>\<open>format_note\<close> returns a value only for a single-part note with a non-empty content
  list, the value being its first item, or for another note with a non-empty subnotes list,
  the value being the content of its first subnote; for such notes it does return that
  value, and on an empty content or subnotes list it raises \<open>IndexError\<close>. Both sweeps call it on every published note of type
  \<open>accessrestrict\<close>: when the loop over the notes of a fetched record reaches such a note
  whose list is empty, the sweep ends with \<open>IndexError\<close>, and a sweep that returns a log has
  met no published access restriction without a formatted text.
\<close>

theorem format_note_is_partial:
  "(format_note n = Inr v \<longrightarrow>
      (jsonmodel_type n = ''note_singlepart'' \<and> (\<exists>cs. content n = Some (v # cs)))
      \<or> (jsonmodel_type n \<noteq> ''note_singlepart''
          \<and> (\<exists>sns. subnotes n = Some (Subnote (Some v) # sns))))
   \<and> ((jsonmodel_type n = ''note_singlepart'' \<and> content n = Some [])
        \<or> (jsonmodel_type n \<noteq> ''note_singlepart'' \<and> subnotes n = Some [])
      \<longrightarrow> format_note n = Inl IndexError)
   \<and> (jsonmodel_type n = ''note_singlepart'' \<and> content n = Some (c # cs)
      \<longrightarrow> format_note n = Inr c)
   \<and> (jsonmodel_type n \<noteq> ''note_singlepart'' \<and> subnotes n = Some (Subnote (Some c) # sns)
      \<longrightarrow> format_note n = Inr c)
   \<and> (note_type n = Some ''accessrestrict'' \<and> publish n \<and> format_note n = Inl IndexError
        \<and> objects s u = Some ao \<and> json_notes ao = Some (pre @ n # post)
      \<longrightarrow> ((\<exists>r0. notes_loop (expired_note_step today xml_dates u ao) pre False l = Inr r0)
            \<longrightarrow> sweep_loop (expired_note_step today xml_dates) (u # rest) l s
                  = (Inl IndexError, s\<lparr>trace := trace s @ [GET u]\<rparr>))
          \<and> ((\<exists>r0. notes_loop (text_note_step t u ao) pre False l = Inr r0)
            \<longrightarrow> sweep_loop (text_note_step t) (u # rest) l s
                  = (Inl IndexError, s\<lparr>trace := trace s @ [GET u]\<rparr>)))
   \<and> ((\<exists>lg s'. unpublish_expired_restrictions_for_resource repository today xml_dates
                    resource_number s = (Inr lg, s'))
      \<longrightarrow> visited_notes_format repository resource_number s)
   \<and> ((\<exists>lg s'. unpublish_restrictions_by_text repository resource_number (Some t) s
                    = (Inr (Log lg), s'))
      \<longrightarrow> visited_notes_format repository resource_number s)"
proof -
  have first_content: "jsonmodel_type n = ''note_singlepart'' \<and> content n = Some (c # cs)
      \<longrightarrow> format_note n = Inr c"
    by (simp add: format_note_def)
  have first_subnote: "jsonmodel_type n \<noteq> ''note_singlepart''
        \<and> subnotes n = Some (Subnote (Some c) # sns)
      \<longrightarrow> format_note n = Inr c"
    by (simp add: format_note_def)
  have a: "format_note n = Inr v \<longrightarrow>
      (jsonmodel_type n = ''note_singlepart'' \<and> (\<exists>cs. content n = Some (v # cs)))
      \<or> (jsonmodel_type n \<noteq> ''note_singlepart''
          \<and> (\<exists>sns. subnotes n = Some (Subnote (Some v) # sns)))"
    using format_note_value by blast
  have b: "(jsonmodel_type n = ''note_singlepart'' \<and> content n = Some [])
        \<or> (jsonmodel_type n \<noteq> ''note_singlepart'' \<and> subnotes n = Some [])
      \<longrightarrow> format_note n = Inl IndexError"
    using format_note_empty by blast
  have raised: "note_type n = Some ''accessrestrict'' \<and> publish n \<and> format_note n = Inl IndexError
        \<and> objects s u = Some ao \<and> json_notes ao = Some (pre @ n # post)
      \<longrightarrow> ((\<exists>r0. notes_loop (expired_note_step today xml_dates u ao) pre False l = Inr r0)
            \<longrightarrow> sweep_loop (expired_note_step today xml_dates) (u # rest) l s
                  = (Inl IndexError, s\<lparr>trace := trace s @ [GET u]\<rparr>))
          \<and> ((\<exists>r0. notes_loop (text_note_step t u ao) pre False l = Inr r0)
            \<longrightarrow> sweep_loop (text_note_step t) (u # rest) l s
                  = (Inl IndexError, s\<lparr>trace := trace s @ [GET u]\<rparr>))"
  proof (intro impI conjI)
    assume h: "note_type n = Some ''accessrestrict'' \<and> publish n \<and> format_note n = Inl IndexError
        \<and> objects s u = Some ao \<and> json_notes ao = Some (pre @ n # post)"
    then have st: "expired_note_step today xml_dates u ao n = Inl IndexError"
      "text_note_step t u ao n = Inl IndexError"
      by (simp_all add: steps_raise_format_error)
    {
      assume "\<exists>r0. notes_loop (expired_note_step today xml_dates u ao) pre False l = Inr r0"
      then obtain r0 where "notes_loop (expired_note_step today xml_dates u ao) pre False l = Inr r0"
        by blast
      with h st(1) show "sweep_loop (expired_note_step today xml_dates) (u # rest) l s
                  = (Inl IndexError, s\<lparr>trace := trace s @ [GET u]\<rparr>)"
        using sweep_loop_note_fails[of s u ao pre n post "expired_note_step today xml_dates" l r0]
        by blast
    }
    {
      assume "\<exists>r0. notes_loop (text_note_step t u ao) pre False l = Inr r0"
      then obtain r0 where "notes_loop (text_note_step t u ao) pre False l = Inr r0"
        by blast
      with h st(2) show "sweep_loop (text_note_step t) (u # rest) l s
                  = (Inl IndexError, s\<lparr>trace := trace s @ [GET u]\<rparr>)"
        using sweep_loop_note_fails[of s u ao pre n post "text_note_step t" l r0]
        by blast
    }
  qed
  have d: "(\<exists>lg s'. unpublish_expired_restrictions_for_resource repository today xml_dates
                    resource_number s = (Inr lg, s'))
      \<longrightarrow> visited_notes_format repository resource_number s"
    using expiry_sweep_formats by blast
  have e: "(\<exists>lg s'. unpublish_restrictions_by_text repository resource_number (Some t) s
                    = (Inr (Log lg), s'))
      \<longrightarrow> visited_notes_format repository resource_number s"
    using text_sweep_formats by blast
  from a b first_content first_subnote raised d e show ?thesis by (intro conjI)
qed

theorem format_note_is_partial_witness:
  "format_note two_item_note = Inr ''Closed''
   \<and> format_note old_note = Inr ''old''
   \<and> format_note empty_note = Inl IndexError
   \<and> sweep_loop (expired_note_step ''2026-11-04'' example_xml_dates) [''/ao/1''] []
        (initial_state empty_note_objects)
       = (Inl IndexError, (initial_state empty_note_objects)\<lparr>trace := [GET ''/ao/1'']\<rparr>)
   \<and> sweep_loop (text_note_step ''old'') [''/ao/1''] [] (initial_state empty_note_objects)
       = (Inl IndexError, (initial_state empty_note_objects)\<lparr>trace := [GET ''/ao/1'']\<rparr>)
   \<and> fst (unpublish_expired_restrictions_for_resource ''/r'' ''2026-11-04'' example_xml_dates ''1''
             (initial_state empty_note_objects)) = Inl IndexError
   \<and> fst (unpublish_restrictions_by_text ''/r'' ''1'' (Some ''old'')
             (initial_state empty_note_objects)) = Inl IndexError"
proof -
  let ?s = "initial_state empty_note_objects"
  let ?ao = "empty_json\<lparr>uri := Some ''/ao/1'', display_string := Some ''Box 1'',
                               json_notes := Some [empty_note]\<rparr>"
  note inst = format_note_is_partial[where n = empty_note and s = ?s and u = "''/ao/1''"
      and ao = ?ao and pre = "[]" and post = "[]" and today = "''2026-11-04''"
      and xml_dates = example_xml_dates and t = "''old''" and l = "[]" and rest = "[]"]
  have single: "jsonmodel_type two_item_note = ''note_singlepart''
      \<and> content two_item_note = Some (''Closed'' # [''Open''])"
    by (simp add: two_item_note_def)
  with format_note_is_partial[where n = two_item_note and c = "''Closed''" and cs = "[''Open'']"]
  have v1: "format_note two_item_note = Inr ''Closed''" by blast
  have multi: "jsonmodel_type old_note \<noteq> ''note_singlepart''
      \<and> subnotes old_note = Some (Subnote (Some ''old'') # [])"
    by (simp add: old_note_def)
  with format_note_is_partial[where n = old_note and c = "''old''" and sns = "[]"]
  have v2: "format_note old_note = Inr ''old''" by blast
  have e: "jsonmodel_type empty_note = ''note_singlepart'' \<and> content empty_note = Some []"
    by (simp add: empty_note_def)
  with inst have f: "format_note empty_note = Inl IndexError" by blast
  have h: "note_type empty_note = Some ''accessrestrict''" "publish empty_note"
    "objects ?s ''/ao/1'' = Some ?ao" "json_notes ?ao = Some ([] @ empty_note # [])"
    by (simp_all add: empty_note_def initial_state_def empty_note_objects_def)
  have p: "\<exists>r0. notes_loop (expired_note_step ''2026-11-04'' example_xml_dates ''/ao/1'' ?ao) [] False []
        = Inr r0"
    "\<exists>r0. notes_loop (text_note_step ''old'' ''/ao/1'' ?ao) [] False [] = Inr r0"
    by (rule exI[of _ "([], False, [])"], simp)+
  from inst f h p have
    1: "sweep_loop (expired_note_step ''2026-11-04'' example_xml_dates) [''/ao/1''] [] ?s
       = (Inl IndexError, ?s\<lparr>trace := trace ?s @ [GET ''/ao/1'']\<rparr>)"
    and 2: "sweep_loop (text_note_step ''old'') [''/ao/1''] [] ?s
       = (Inl IndexError, ?s\<lparr>trace := trace ?s @ [GET ''/ao/1'']\<rparr>)"
    by blast+
  have 3: "fst (unpublish_expired_restrictions_for_resource ''/r'' ''2026-11-04'' example_xml_dates
             ''1'' ?s) = Inl IndexError"
    by (simp add: unpublish_expired_restrictions_for_resource_def get_resource_archival_object_uris_def
      get_resource_tree_def get_aspace_json_def call_extract_archival_object_uris_from_children_def
      initial_state_def empty_note_objects_def empty_note_def empty_json_def
      expired_note_step_def format_note_def Let_def)
  have 4: "fst (unpublish_restrictions_by_text ''/r'' ''1'' (Some ''old'') ?s) = Inl IndexError"
    by (simp add: unpublish_restrictions_by_text_def get_resource_archival_object_uris_def
      get_resource_tree_def get_aspace_json_def call_extract_archival_object_uris_from_children_def
      initial_state_def empty_note_objects_def empty_note_def empty_json_def truthy_str_def
      text_note_step_def format_note_def Let_def)
  have tr: "trace ?s = []" by (simp add: initial_state_def)
  from v1 v2 f 1 2 3 4 tr show ?thesis by simp
qed

section \<open>Display synthesizer\<close>

text \<open>
  C6. \<^verbatim>\<open>make_display_string\<close> follows the priority rules: with a title and dates it
  returns the sanitized title, a comma and the formatted dates; with a title only, the
  sanitized title; with dates only and no parent title asked for, the formatted dates; with
  dates only and the parent title asked for, it fetches the parent and returns the display
  string stored in the parent record, sanitized, followed by a comma and the formatted
  dates. A title or a dates list that is empty counts as absent.
\<close>

theorem make_display_string_rules:
  "(title j = Some t \<and> t \<noteq> [] \<and> truthy_list (dates j) \<longrightarrow>
      make_display_string j add_parent_title s
        = (Inr (Some (sanitize_title t @ '', '' @ format_dates j)), s))
   \<and> (title j = Some t \<and> t \<noteq> [] \<and> \<not> truthy_list (dates j) \<longrightarrow>
      make_display_string j add_parent_title s = (Inr (Some (sanitize_title t)), s))
   \<and> (\<not> truthy_str (title j) \<and> truthy_list (dates j) \<longrightarrow>
      make_display_string j False s = (Inr (Some (format_dates j)), s))
   \<and> (\<not> truthy_str (title j) \<and> truthy_list (dates j) \<and> parent j = Some p
        \<and> objects s p = Some parent_json \<and> display_string parent_json = Some d \<longrightarrow>
      make_display_string j True s
        = (Inr (Some (sanitize_title d @ '', '' @ format_dates j)),
           s\<lparr>trace := trace s @ [GET p]\<rparr>))"
  by (simp add: make_display_string_def truthy_str_def get_aspace_json_def)

lemma sanitize_example: "sanitize_title ''<emph>Series 1</emph> '' = ''Series 1''"
  by (simp add: sanitize_title_def strip_def isspace_def Let_def)

lemma dated_child_dates: "format_dates dated_child = ''1900-1910''"
  by (simp add: format_dates_def dated_child_def empty_json_def truthy_list_def date_text_def
      strip_def isspace_def Let_def)

theorem make_display_string_witness:
  "make_display_string (dated_child\<lparr>title := Some ''<title>Papers</title>''\<rparr>) False
       (initial_state [''/ao/1'' \<mapsto> series])
     = (Inr (Some ''Papers, 1900-1910''), initial_state [''/ao/1'' \<mapsto> series])
   \<and> make_display_string (series\<lparr>title := Some ''<title>Papers</title>''\<rparr>) False
       (initial_state [''/ao/1'' \<mapsto> series])
     = (Inr (Some ''Papers''), initial_state [''/ao/1'' \<mapsto> series])
   \<and> make_display_string dated_child False (initial_state [''/ao/1'' \<mapsto> series])
     = (Inr (Some ''1900-1910''), initial_state [''/ao/1'' \<mapsto> series])
   \<and> make_display_string dated_child True (initial_state [''/ao/1'' \<mapsto> series])
     = (Inr (Some ''Series 1, 1900-1910''),
        (initial_state [''/ao/1'' \<mapsto> series])\<lparr>trace := [GET ''/ao/1'']\<rparr>)"
proof -
  let ?s = "initial_state [''/ao/1'' \<mapsto> series]"
  let ?titled = "dated_child\<lparr>title := Some ''<title>Papers</title>''\<rparr>"
  let ?plain = "series\<lparr>title := Some ''<title>Papers</title>''\<rparr>"
  have papers: "sanitize_title ''<title>Papers</title>'' = ''Papers''"
    by (simp add: sanitize_title_def strip_def isspace_def Let_def)
  have fd: "format_dates ?titled = ''1900-1910''"
    by (simp add: format_dates_def dated_child_def empty_json_def truthy_list_def date_text_def
      strip_def isspace_def Let_def)
  have h1: "title ?titled = Some ''<title>Papers</title>'' \<and> ''<title>Papers</title>'' \<noteq> []
      \<and> truthy_list (dates ?titled)"
    by (simp add: dated_child_def empty_json_def truthy_list_def)
  have h2: "title ?plain = Some ''<title>Papers</title>'' \<and> ''<title>Papers</title>'' \<noteq> []
      \<and> \<not> truthy_list (dates ?plain)"
    by (simp add: series_def empty_json_def truthy_list_def)
  have h3: "\<not> truthy_str (title dated_child) \<and> truthy_list (dates dated_child)"
    by (simp add: dated_child_def empty_json_def truthy_list_def truthy_str_def)
  have h4: "parent dated_child = Some ''/ao/1'' \<and> objects ?s ''/ao/1'' = Some series
      \<and> display_string series = Some ''<emph>Series 1</emph> ''"
    by (simp add: dated_child_def series_def empty_json_def initial_state_def)
  from make_display_string_rules[where j = ?titled and t = "''<title>Papers</title>''"
      and add_parent_title = False and s = ?s] h1
  have 1: "make_display_string ?titled False ?s
      = (Inr (Some (sanitize_title ''<title>Papers</title>'' @ '', '' @ format_dates ?titled)), ?s)"
    by blast
  from make_display_string_rules[where j = ?plain and t = "''<title>Papers</title>''"
      and add_parent_title = False and s = ?s] h2
  have 2: "make_display_string ?plain False ?s
      = (Inr (Some (sanitize_title ''<title>Papers</title>'')), ?s)"
    by blast
  from make_display_string_rules[where j = dated_child and s = ?s] h3
  have 3: "make_display_string dated_child False ?s = (Inr (Some (format_dates dated_child)), ?s)"
    by blast
  from make_display_string_rules[where j = dated_child and s = ?s and p = "''/ao/1''"
      and parent_json = series and d = "''<emph>Series 1</emph> ''"] h3 h4
  have 4: "make_display_string dated_child True ?s
      = (Inr (Some (sanitize_title ''<emph>Series 1</emph> '' @ '', '' @ format_dates dated_child)),
         ?s\<lparr>trace := trace ?s @ [GET ''/ao/1'']\<rparr>)"
    by blast
  have tr: "trace ?s = []" by (simp add: initial_state_def)
  from 1 2 3 4 show ?thesis
    unfolding papers fd sanitize_example dated_child_dates tr by simp
qed

end
